theory Spec2Isabelle
  imports Main "HOL-Library.AList"
begin

section \<open>Starhaven: a shallow embedding of \<^verbatim>\<open>Strarhaven.py\<close>\<close>

text \<open>
  The program is a single class \<^verbatim>\<open>Game\<close> whose methods mutate the object, print
  through \<^verbatim>\<open>say\<close>, and end the process by raising \<^verbatim>\<open>SystemExit\<close>. The model
  passes the object explicitly: a method is a function from the game to a result, which
  is either the game after a normal return or the exception raised together with the
  game as it stood at the raise. What \<^verbatim>\<open>say\<close> prints is appended to the field
  \<open>out\<close>, one value per call.

  Strings are ASCII byte strings. The prose-only fields of the source (\<^verbatim>\<open>desc\<close>,
  \<^verbatim>\<open>title\<close>, \<^verbatim>\<open>alibi\<close>, \<^verbatim>\<open>truth_when_innocent\<close>, \<^verbatim>\<open>lie_when_guilty\<close>) are
  only ever handed to \<^verbatim>\<open>say\<close>; the model leaves them out of the records, and a
  printed line that quotes one of them is logged by the identifier of its owner.
\<close>

subsection \<open>Strings\<close>

definition lower_chr :: "char \<Rightarrow> char" where
  "lower_chr c =
     (let n = (of_char c :: nat) in if 65 \<le> n \<and> n \<le> 90 then char_of (n + 32) else c)"

definition upper_chr :: "char \<Rightarrow> char" where
  "upper_chr c =
     (let n = (of_char c :: nat) in if 97 \<le> n \<and> n \<le> 122 then char_of (n - 32) else c)"

definition lower :: "string \<Rightarrow> string" where
  "lower s = map lower_chr s"

definition upper :: "string \<Rightarrow> string" where
  "upper s = map upper_chr s"

text \<open>\<^verbatim>\<open>" ".join(args)\<close>\<close>

fun join_sp :: "string list \<Rightarrow> string" where
  "join_sp [] = []"
| "join_sp [a] = a"
| "join_sp (a # b # bs) = a @ '' '' @ join_sp (b # bs)"

subsection \<open>World data\<close>

text \<open>A Python \<^verbatim>\<open>dict\<close> keeps insertion order: an association list with distinct keys.\<close>

type_synonym 'v dict = "(string \<times> 'v) list"

definition keys :: "'v dict \<Rightarrow> string list" where
  "keys d = map fst d"

definition vals :: "'v dict \<Rightarrow> 'v list" where
  "vals d = map snd d"

record Item =
  item_id :: string
  item_name :: string
  portable :: bool

record Room =
  room_id :: string
  room_name :: string
  room_x :: int
  room_y :: int
  room_items :: "string list"
  room_npcs :: "string list"
  passable :: bool

record NPC =
  npc_id :: string
  npc_name :: string
  npc_room :: string
  cooperative :: bool
  arrested :: bool

text \<open>
  One value per call of \<^verbatim>\<open>say\<close>, carrying what the format string interpolates.
  They are grouped by the part of the program that prints them.
\<close>

datatype view_msg =
    Room_header string
  | Items_here "string list"
  | You_see "string list"
  | Exits "string list"
  | No_exits
  | Deck_plan
  | Map_row "string list"
  | Time_left int
  | You_carry "string list"
  | You_carry_nothing
  | Use_go
  | Access_denied

datatype item_msg =
    Take_what
  | Not_here
  | Fixed_in_place
  | You_take string
  | Drop_what
  | Dont_have_that
  | You_drop string
  | Inspect_what
  | Item_detail string bool
  | Npc_detail string bool
  | Nothing_notable

datatype npc_msg =
    Talk_to_whom
  | They_arent_here
  | Npc_says string bool
  | Accuse_whom
  | Not_a_listed_guest
  | Lay_out_case string
  | They_blanch
  | Key_tells "string list"
  | They_sneer
  | Arrest_whom
  | Need_cuffs
  | Already_restrained
  | You_restrain string

datatype console_msg =
    Station_falls
  | Must_be_at_console
  | Splice_codes
  | Trajectory_restored
  | Killer_was string
  | You_win
  | Seed_required
  | Someone_in_brig
  | Wrong_person_hint

datatype loop_msg =
    Welcome
  | Goodbye
  | Help_1
  | Help_2
  | Go_where
  | Unrecognized
  | Alarms int
  | Saved
  | No_save_found
  | Loaded

datatype msg =
    View view_msg
  | On_item item_msg
  | On_npc npc_msg
  | Console console_msg
  | Loop loop_msg

record Game =
  rng :: "nat \<Rightarrow> nat"
  time :: int
  rooms :: "Room dict"
  items :: "Item dict"
  npcs :: "NPC dict"
  player_room :: string
  inv_list :: "string list"
  killer_id :: string
  killer_evidence :: "string list dict"
  brigrm :: string
  cmdrm :: string
  out :: "msg list"

datatype exn = SystemExit | KeyError | IndexError | ValueError

datatype 'a result = Ok 'a | Raise exn Game

definition say :: "msg \<Rightarrow> Game \<Rightarrow> Game" where
  "say m g = g\<lparr>out := out g @ [m]\<rparr>"

text \<open>Sequencing of two statements: the second runs only if the first returned.\<close>

definition and_then :: "'a result \<Rightarrow> ('a \<Rightarrow> 'b result) \<Rightarrow> 'b result" where
  "and_then r f = (case r of Ok a \<Rightarrow> f a | Raise e g \<Rightarrow> Raise e g)"

text \<open>The game a method leaves behind, however it ended.\<close>

definition final :: "Game result \<Rightarrow> Game" where
  "final r = (case r of Ok g \<Rightarrow> g | Raise e g \<Rightarrow> g)"

definition DIRS :: "(string \<times> int \<times> int) list" where
  "DIRS = [(''n'', 0, -1), (''s'', 0, 1), (''e'', 1, 0), (''w'', -1, 0)]"

subsection \<open>The random generator\<close>

text \<open>
  \<^verbatim>\<open>self.rng\<close> is a \<^verbatim>\<open>random.Random\<close>. The field \<open>rng\<close> is the sequence of raw
  draws still to come; the seed decides it and the model leaves it arbitrary.
  \<^verbatim>\<open>choice\<close> and \<^verbatim>\<open>sample\<close> follow the standard library: \<^verbatim>\<open>choice(seq)\<close> is
  \<^verbatim>\<open>seq[randbelow(len(seq))]\<close> and raises \<^verbatim>\<open>IndexError\<close> on an empty sequence;
  \<^verbatim>\<open>sample(population, k)\<close> raises \<^verbatim>\<open>ValueError\<close> when \<open>k\<close> exceeds the population
  and otherwise, for a population of at most 21 elements, draws from a shrinking pool:
  \<^verbatim>\<open>j = randbelow(n - i); result[i] = pool[j]; pool[j] = pool[n - i - 1]\<close>.
\<close>

definition randbelow :: "nat \<Rightarrow> Game \<Rightarrow> nat \<times> Game" where
  "randbelow n g = (rng g 0 mod n, g\<lparr>rng := (\<lambda>k. rng g (Suc k))\<rparr>)"

definition choice :: "'a list \<Rightarrow> Game \<Rightarrow> ('a \<times> Game) result" where
  "choice xs g =
     (if xs = [] then Raise IndexError g
      else (case randbelow (length xs) g of (j, g') \<Rightarrow> Ok (xs ! j, g')))"

fun sample_pool :: "nat \<Rightarrow> 'a list \<Rightarrow> Game \<Rightarrow> 'a list \<times> Game" where
  "sample_pool 0 pool g = ([], g)"
| "sample_pool (Suc k) pool g =
     (case randbelow (length pool) g of (j, g1) \<Rightarrow>
        (case sample_pool k (butlast (pool[j := last pool])) g1 of
           (xs, g2) \<Rightarrow> (pool ! j # xs, g2)))"

definition sample :: "'a list \<Rightarrow> nat \<Rightarrow> Game \<Rightarrow> ('a list \<times> Game) result" where
  "sample population k g =
     (if length population < k then Raise ValueError g
      else Ok (sample_pool k population g))"

text \<open>
  \<^verbatim>\<open>rng.random() < 0.25\<close>: a floating-point draw compared with a constant. Only the
  truth value matters to the program; the model takes it from the next raw draw.
\<close>

definition random_below_quarter :: "Game \<Rightarrow> bool \<times> Game" where
  "random_below_quarter g = (rng g 0 mod 4 = 0, g\<lparr>rng := (\<lambda>k. rng g (Suc k))\<rparr>)"

subsection \<open>World setup\<close>

definition add_room ::
  "string \<Rightarrow> string \<Rightarrow> int \<Rightarrow> int \<Rightarrow> string list \<Rightarrow> string list \<Rightarrow> Game \<Rightarrow> Game" where
  "add_room i n px py its ns g =
     g\<lparr>rooms := AList.update i
        \<lparr>room_id = i, room_name = n, room_x = px, room_y = py,
         room_items = its, room_npcs = ns, passable = True\<rparr> (rooms g)\<rparr>"

definition add_item :: "string \<Rightarrow> string \<Rightarrow> bool \<Rightarrow> Game \<Rightarrow> Game" where
  "add_item i n p g =
     g\<lparr>items := AList.update i \<lparr>item_id = i, item_name = n, portable = p\<rparr> (items g)\<rparr>"

definition add_npc :: "string \<Rightarrow> string \<Rightarrow> string \<Rightarrow> Game \<Rightarrow> Game" where
  "add_npc i n r g =
     g\<lparr>npcs := AList.update i
        \<lparr>npc_id = i, npc_name = n, npc_room = r, cooperative = True, arrested = False\<rparr>
        (npcs g)\<rparr>"

definition build_world :: "Game \<Rightarrow> Game" where
  "build_world g0 =
     (let g = add_room ''atrium'' ''Grand Atrium'' 2 1 [''cuffs''] [] g0;
          g = add_room ''gala'' ''Gala Dome'' 2 0 [''cufflink'', ''manifest''] [] g;
          g = add_room ''labs'' ''Bio-Labs'' 1 0 [''stimulant'', ''overwritten_log''] [] g;
          g = add_room ''hangar'' ''Shuttle Hangar'' 4 1 [''forged_card''] [] g;
          g = add_room ''command'' ''Command Deck'' 3 0 [''thruster_invoice''] [] g;
          g = add_room ''brig'' ''Security Brig'' 0 1 [] [] g;
          g = add_room ''gardens'' ''Starlight Gardens'' 1 2 [''dna_fiber''] [] g;
          g = add_room ''suites'' ''VIP Suites'' 3 2 [''weapon_garrote''] [] g;
          g = add_room ''service'' ''Service Ducts'' 4 2 [''maintenance_key''] [] g;
          g = add_room ''observ'' ''Observatory'' 0 0 [''smeared_print''] [] g;
          g = add_item ''cuffs'' ''Restraint Cuffs'' True g;
          g = add_item ''weapon_garrote'' ''Monofilament Garrote'' True g;
          g = add_item ''forged_card'' ''Forged Access Card'' True g;
          g = add_item ''overwritten_log'' ''Overwritten Maint Log'' True g;
          g = add_item ''cufflink'' ''Bloodied Cufflink'' True g;
          g = add_item ''stimulant'' ''Stimulant Vial'' True g;
          g = add_item ''thruster_invoice'' ''Thruster Fuel Invoice'' True g;
          g = add_item ''manifest'' ''Shuttle Manifest'' True g;
          g = add_item ''dna_fiber'' ''Microscopic Fiber'' True g;
          g = add_item ''smeared_print'' ''Smeared Fingerprint'' True g;
          g = add_item ''maintenance_key'' ''Maintenance Master Key'' True g;
          g = add_item ''codes_token'' ''Master Codes Token'' False g;
          g = add_npc ''voss'' ''Dr. Selene Voss'' ''labs'' g;
          g = add_npc ''rourke'' ''Admiral Kade Rourke'' ''observ'' g;
          g = add_npc ''chen'' ''Minister Lira Chen'' ''gala'' g;
          g = add_npc ''vale'' ''Orin Vale'' ''suites'' g;
          g = add_npc ''das'' ''Prof. Mira Das'' ''atrium'' g;
          g = add_npc ''pax'' ''Pax Morita'' ''service'' g
      in g)"

definition evidence_pool :: "string list dict" where
  "evidence_pool =
     [(''voss'', [''dna_fiber'', ''stimulant'', ''forged_card'']),
      (''rourke'', [''cufflink'', ''smeared_print'', ''thruster_invoice'']),
      (''chen'', [''manifest'', ''forged_card'', ''weapon_garrote'']),
      (''vale'', [''cufflink'', ''manifest'', ''stimulant'']),
      (''das'', [''overwritten_log'', ''dna_fiber'', ''smeared_print'']),
      (''pax'', [''maintenance_key'', ''overwritten_log'', ''thruster_invoice''])]"

text \<open>The dict comprehension of \<^verbatim>\<open>_seed_case\<close>: one \<^verbatim>\<open>sample\<close> per suspect, in order.\<close>

fun seed_evidence ::
  "string list \<Rightarrow> string list dict \<Rightarrow> Game \<Rightarrow> (string list dict \<times> Game) result" where
  "seed_evidence [] acc g = Ok (acc, g)"
| "seed_evidence (sus # rest) acc g =
     (case map_of evidence_pool sus of
        None \<Rightarrow> Raise KeyError g
      | Some pool \<Rightarrow>
          and_then (sample pool 3 g)
            (\<lambda>(ev, g1). seed_evidence rest (AList.update sus ev acc) g1))"

text \<open>The scatter loop: an item no room holds goes to a random room of \<open>drop_rooms\<close>.\<close>

fun scatter :: "string list \<Rightarrow> string list \<Rightarrow> Game \<Rightarrow> Game result" where
  "scatter [] drop_rooms g = Ok g"
| "scatter (iid # rest) drop_rooms g =
     (if list_ex (\<lambda>r. iid \<in> set (room_items r)) (vals (rooms g))
      then scatter rest drop_rooms g
      else and_then (choice drop_rooms g)
        (\<lambda>(rid, g1).
           (case map_of (rooms g1) rid of
              None \<Rightarrow> Raise KeyError g1
            | Some r \<Rightarrow>
                scatter rest drop_rooms
                  (g1\<lparr>rooms := AList.update rid (r\<lparr>room_items := room_items r @ [iid]\<rparr>)
                                (rooms g1)\<rparr>))))"

definition seed_case :: "Game \<Rightarrow> Game result" where
  "seed_case g =
     (let suspects = keys (npcs g) in
      and_then (choice suspects g)
        (\<lambda>(k, g1).
           and_then (seed_evidence suspects [] (g1\<lparr>killer_id := k\<rparr>))
             (\<lambda>(ev, g2).
                let g3 = g2\<lparr>killer_evidence := ev\<rparr>;
                    movable = map fst (filter (\<lambda>(iid, it). portable it \<and> iid \<noteq> ''codes_token'')
                                        (items g3));
                    drop_rooms = filter (\<lambda>rid. rid \<noteq> brigrm g3 \<and> rid \<noteq> cmdrm g3)
                                   (keys (rooms g3))
                in scatter movable drop_rooms g3)))"

text \<open>\<^verbatim>\<open>Game.__init__\<close>\<close>

definition Game_init :: "(nat \<Rightarrow> nat) \<Rightarrow> Game result" where
  "Game_init seed =
     seed_case (build_world
       \<lparr>rng = seed, time = 60, rooms = [], items = [], npcs = [],
        player_room = ''atrium'', inv_list = [], killer_id = [], killer_evidence = [],
        brigrm = ''brig'', cmdrm = ''command'', out = []\<rparr>)"

subsection \<open>Core helpers\<close>

text \<open>A subscript \<^verbatim>\<open>d[k]\<close> raises \<^verbatim>\<open>KeyError\<close> on a missing key.\<close>

definition lookup :: "'v dict \<Rightarrow> string \<Rightarrow> Game \<Rightarrow> 'v result" where
  "lookup d k g = (case map_of d k of None \<Rightarrow> Raise KeyError g | Some v \<Rightarrow> Ok v)"

text \<open>\<^verbatim>\<open>d[k] for k in ks\<close>, consumed in order.\<close>

fun lookup_all :: "'v dict \<Rightarrow> string list \<Rightarrow> Game \<Rightarrow> 'v list result" where
  "lookup_all d [] g = Ok []"
| "lookup_all d (k # ks) g =
     and_then (lookup d k g) (\<lambda>v. and_then (lookup_all d ks g) (\<lambda>vs. Ok (v # vs)))"

definition room_at_xy :: "int \<Rightarrow> int \<Rightarrow> Game \<Rightarrow> Room option" where
  "room_at_xy px py g =
     find (\<lambda>r. room_x r = px \<and> room_y r = py \<and> passable r) (vals (rooms g))"

definition current_room :: "Game \<Rightarrow> Room result" where
  "current_room g = lookup (rooms g) (player_room g) g"

definition spend :: "int \<Rightarrow> Game \<Rightarrow> Game result" where
  "spend minutes g =
     (let g1 = g\<lparr>time := max 0 (time g - minutes)\<rparr> in
      if time g1 = 0 then Raise SystemExit (say (Console Station_falls) g1) else Ok g1)"

subsection \<open>Printing commands\<close>

definition look :: "Game \<Rightarrow> Game result" where
  "look g =
     and_then (current_room g) (\<lambda>r.
     let g1 = say (View (Room_header (room_name r))) g in
     and_then
       (if room_items r \<noteq> []
        then and_then (lookup_all (items g1) (room_items r) g1)
               (\<lambda>its. Ok (say (View (Items_here (map item_name its))) g1))
        else Ok g1) (\<lambda>g2.
     and_then
       (if room_npcs r \<noteq> []
        then and_then (lookup_all (npcs g2) (room_npcs r) g2)
               (\<lambda>ns. Ok (say (View (You_see (map npc_name ns))) g2))
        else Ok g2) (\<lambda>g3.
     let exits = map fst (filter (\<lambda>(d, dx, dy).
                   room_at_xy (room_x r + dx) (room_y r + dy) g3 \<noteq> None) DIRS)
     in spend 0 (say (View (if exits \<noteq> [] then Exits exits else No_exits)) g3))))"

text \<open>
  \<^verbatim>\<open>show_map\<close> fills a grid of labels and prints it row by row. Python's list
  subscripts count a negative index from the end and raise \<^verbatim>\<open>IndexError\<close> out of
  range; \<^verbatim>\<open>max\<close> of no rooms raises \<^verbatim>\<open>ValueError\<close>; \<^verbatim>\<open>name.split()[0]\<close> raises
  \<^verbatim>\<open>IndexError\<close> for a name without a word.
\<close>

definition py_index :: "'a list \<Rightarrow> int \<Rightarrow> nat option" where
  "py_index xs i =
     (let n = int (length xs); j = (if i < 0 then n + i else i)
      in if 0 \<le> j \<and> j < n then Some (nat j) else None)"

definition is_space :: "char \<Rightarrow> bool" where
  "is_space c = ((of_char c :: nat) \<in> {9, 10, 11, 12, 13, 28, 29, 30, 31, 32})"

definition first_word :: "string \<Rightarrow> string option" where
  "first_word s =
     (let w = takeWhile (\<lambda>c. \<not> is_space c) (dropWhile is_space s)
      in if w = [] then None else Some w)"

definition set_cell :: "string list list \<Rightarrow> int \<Rightarrow> int \<Rightarrow> string \<Rightarrow> string list list option" where
  "set_cell grid cy cx v =
     (case py_index grid cy of
        None \<Rightarrow> None
      | Some j \<Rightarrow>
          (case py_index (grid ! j) cx of
             None \<Rightarrow> None
           | Some i \<Rightarrow> Some (grid[j := (grid ! j)[i := v]])))"

fun fill_grid :: "Room list \<Rightarrow> string list list \<Rightarrow> string list list option" where
  "fill_grid [] grid = Some grid"
| "fill_grid (r # rs) grid =
     (case first_word (room_name r) of
        None \<Rightarrow> None
      | Some w \<Rightarrow>
          (case set_cell grid (room_y r) (room_x r) (upper (take 3 w)) of
             None \<Rightarrow> None
           | Some grid' \<Rightarrow> fill_grid rs grid'))"

definition py_max :: "int list \<Rightarrow> int option" where
  "py_max xs = (case xs of [] \<Rightarrow> None | x # rest \<Rightarrow> Some (fold max rest x))"

definition show_map :: "Game \<Rightarrow> Game result" where
  "show_map g =
     (let rs = vals (rooms g) in
      case py_max (map room_x rs) of
        None \<Rightarrow> Raise ValueError g
      | Some mx \<Rightarrow>
     (case py_max (map room_y rs) of
        None \<Rightarrow> Raise ValueError g
      | Some my \<Rightarrow>
     (case fill_grid rs (replicate (nat (my + 1)) (replicate (nat (mx + 1)) ''   '')) of
        None \<Rightarrow> Raise IndexError g
      | Some grid1 \<Rightarrow>
          and_then (current_room g) (\<lambda>r.
            case set_cell grid1 (room_y r) (room_x r) ''[X]'' of
              None \<Rightarrow> Raise IndexError g
            | Some grid2 \<Rightarrow>
                spend 0 (fold (\<lambda>row. say (View (Map_row row))) grid2
                           (say (View Deck_plan) g))))))"

definition show_time :: "Game \<Rightarrow> Game result" where
  "show_time g = spend 0 (say (View (Time_left (time g))) g)"

definition inv_show :: "Game \<Rightarrow> Game result" where
  "inv_show g =
     and_then
       (if inv_list g \<noteq> []
        then and_then (lookup_all (items g) (inv_list g) g)
               (\<lambda>its. Ok (say (View (You_carry (map item_name its))) g))
        else Ok (say (View You_carry_nothing) g))
       (spend 0)"

subsection \<open>Movement\<close>

text \<open>\<^verbatim>\<open>_sync_npcs_in_room\<close>: every room's list is rebuilt from the NPC table.\<close>

definition sync_npcs_in_room :: "Game \<Rightarrow> Game" where
  "sync_npcs_in_room g =
     g\<lparr>rooms := map (\<lambda>(rid, r).
          (rid, r\<lparr>room_npcs := map fst (filter (\<lambda>(nid, n). npc_room n = rid \<and> \<not> arrested n)
                                             (npcs g))\<rparr>)) (rooms g)\<rparr>"

definition move :: "string \<Rightarrow> Game \<Rightarrow> Game result" where
  "move d0 g =
     (case map_of DIRS (lower d0) of
        None \<Rightarrow> Ok (say (View Use_go) g)
      | Some (dx, dy) \<Rightarrow>
          and_then (current_room g) (\<lambda>r.
            case room_at_xy (room_x r + dx) (room_y r + dy) g of
              None \<Rightarrow> Ok (say (View Access_denied) g)
            | Some target \<Rightarrow>
                and_then (look (sync_npcs_in_room (g\<lparr>player_room := room_id target\<rparr>)))
                  (spend 2)))"

subsection \<open>Items\<close>

text \<open>
  The search loops of \<^verbatim>\<open>take\<close>, \<^verbatim>\<open>drop\<close> and \<^verbatim>\<open>inspect\<close>: the first identifier
  of the pool whose item matches, where \<open>name\<close> is the lowered input. The table is
  subscripted before the comparison, so an unknown identifier raises.
\<close>

fun find_item :: "string \<Rightarrow> string list \<Rightarrow> Game \<Rightarrow> string option result" where
  "find_item name [] g = Ok None"
| "find_item name (i # pool) g =
     and_then (lookup (items g) i g) (\<lambda>it.
       if lower (item_name it) = name \<or> i = name then Ok (Some i)
       else find_item name pool g)"

text \<open>The same loop over NPC identifiers (\<^verbatim>\<open>inspect\<close>, \<^verbatim>\<open>talk\<close>, \<^verbatim>\<open>arrest\<close>).\<close>

fun find_npc :: "string \<Rightarrow> string list \<Rightarrow> Game \<Rightarrow> string option result" where
  "find_npc name [] g = Ok None"
| "find_npc name (nid # pool) g =
     and_then (lookup (npcs g) nid g) (\<lambda>n.
       if lower (npc_name n) = name \<or> nid = name then Ok (Some nid)
       else find_npc name pool g)"

text \<open>
  \<^verbatim>\<open>if not iid\<close> holds for \<^verbatim>\<open>None\<close> and for the empty string; \<open>truthy\<close> is its
  negation, the identifier found when there is a usable one.
\<close>

definition truthy :: "string option \<Rightarrow> string option" where
  "truthy v = (case v of None \<Rightarrow> None | Some s \<Rightarrow> if s = [] then None else Some s)"

definition take_cmd :: "string list \<Rightarrow> Game \<Rightarrow> Game result" where
  "take_cmd args g =
     (if args = [] then Ok (say (On_item Take_what) g)
      else
        and_then (current_room g) (\<lambda>r.
        and_then (find_item (lower (join_sp args)) (room_items r) g) (\<lambda>found.
          case truthy found of
            None \<Rightarrow> Ok (say (On_item Not_here) g)
          | Some iid \<Rightarrow>
              and_then (lookup (items g) iid g) (\<lambda>it.
                if \<not> portable it then Ok (say (On_item Fixed_in_place) g)
                else
                  let g1 = g\<lparr>rooms := AList.update (player_room g)
                               (r\<lparr>room_items := remove1 iid (room_items r)\<rparr>) (rooms g)\<rparr>;
                      g2 = g1\<lparr>inv_list := inv_list g1 @ [iid]\<rparr>
                  in spend 1 (say (On_item (You_take (item_name it))) g2)))))"

definition drop_cmd :: "string list \<Rightarrow> Game \<Rightarrow> Game result" where
  "drop_cmd args g =
     (if args = [] then Ok (say (On_item Drop_what) g)
      else
        and_then (find_item (lower (join_sp args)) (inv_list g) g) (\<lambda>found.
          case truthy found of
            None \<Rightarrow> Ok (say (On_item Dont_have_that) g)
          | Some iid \<Rightarrow>
              let g1 = g\<lparr>inv_list := remove1 iid (inv_list g)\<rparr> in
              and_then (current_room g1) (\<lambda>r.
                let g2 = g1\<lparr>rooms := AList.update (player_room g1)
                             (r\<lparr>room_items := room_items r @ [iid]\<rparr>) (rooms g1)\<rparr>
                in
                and_then (lookup (items g2) iid g2) (\<lambda>it.
                  spend 1 (say (On_item (You_drop (item_name it))) g2)))))"

definition inspect :: "string list \<Rightarrow> Game \<Rightarrow> Game result" where
  "inspect args g =
     (if args = [] then Ok (say (On_item Inspect_what) g)
      else
        let name = lower (join_sp args) in
        and_then (current_room g) (\<lambda>r.
        and_then (find_item name (inv_list g @ room_items r) g) (\<lambda>found.
          case found of
            Some i \<Rightarrow>
              and_then (lookup (killer_evidence g) (killer_id g) g) (\<lambda>ev.
                spend 1 (say (On_item (Item_detail i (i \<in> set ev))) g))
          | None \<Rightarrow>
              and_then (find_npc name (room_npcs r) g) (\<lambda>seen.
                case seen of
                  Some nid \<Rightarrow>
                    and_then (lookup (npcs g) nid g) (\<lambda>n.
                      spend 1 (say (On_item (Npc_detail nid (cooperative n))) g))
                | None \<Rightarrow> Ok (say (On_item Nothing_notable) g)))))"

subsection \<open>Suspects\<close>

definition set_npc :: "string \<Rightarrow> NPC \<Rightarrow> Game \<Rightarrow> Game" where
  "set_npc nid n g = g\<lparr>npcs := AList.update nid n (npcs g)\<rparr>"

definition talk :: "string list \<Rightarrow> Game \<Rightarrow> Game result" where
  "talk args g =
     (if args = [] then Ok (say (On_npc Talk_to_whom) g)
      else
        and_then (current_room g) (\<lambda>r.
        and_then (find_npc (lower (join_sp args)) (room_npcs r) g) (\<lambda>found.
          case truthy found of
            None \<Rightarrow> Ok (say (On_npc They_arent_here) g)
          | Some target_id \<Rightarrow>
              and_then (lookup (npcs g) target_id g) (\<lambda>n.
                let guilty = (target_id = killer_id g);
                    g1 = say (On_npc (Npc_says target_id guilty)) g
                in
                if guilty then spend 2 g1
                else
                  (case random_below_quarter g1 of
                     (lucky, g2) \<Rightarrow>
                       spend 2 (if lucky then set_npc target_id (n\<lparr>cooperative := True\<rparr>) g2
                                else g2))))))"

definition accuse :: "string list \<Rightarrow> Game \<Rightarrow> Game result" where
  "accuse args g =
     (if args = [] then Ok (say (On_npc Accuse_whom) g)
      else
        let who0 = lower (join_sp args);
            resolved =
              (if who0 \<in> set (keys (npcs g)) then Some who0
               else (case map fst (filter (\<lambda>(nid, n). lower (npc_name n) = who0) (npcs g)) of
                       [] \<Rightarrow> None
                     | m # ms \<Rightarrow> Some m))
        in
        case resolved of
          None \<Rightarrow> Ok (say (On_npc Not_a_listed_guest) g)
        | Some who \<Rightarrow>
            and_then (lookup (killer_evidence g) (killer_id g) g) (\<lambda>tips.
            and_then (lookup (npcs g) who g) (\<lambda>n.
              let g1 = say (On_npc (Lay_out_case (npc_name n))) g in
              if who = killer_id g then
                let g2 = say (On_npc They_blanch) g1 in
                and_then (lookup_all (items g2) tips g2) (\<lambda>its.
                  spend 3 (say (On_npc (Key_tells (map item_name its))) g2))
              else spend 3 (say (On_npc They_sneer) g1))))"

definition arrest :: "string list \<Rightarrow> Game \<Rightarrow> Game result" where
  "arrest args g =
     (if args = [] then Ok (say (On_npc Arrest_whom) g)
      else if ''cuffs'' \<notin> set (inv_list g) then Ok (say (On_npc Need_cuffs) g)
      else
        and_then (current_room g) (\<lambda>r.
        and_then (find_npc (lower (join_sp args)) (room_npcs r) g) (\<lambda>found.
          case truthy found of
            None \<Rightarrow> Ok (say (On_npc They_arent_here) g)
          | Some target_id \<Rightarrow>
              and_then (lookup (npcs g) target_id g) (\<lambda>n.
                if arrested n then Ok (say (On_npc Already_restrained) g)
                else
                  let g1 = sync_npcs_in_room
                             (set_npc target_id (n\<lparr>arrested := True, npc_room := brigrm g\<rparr>) g)
                  in
                  and_then
                    (if target_id = killer_id g1
                     then and_then (lookup (rooms g1) (brigrm g1) g1) (\<lambda>b.
                            if ''codes_token'' \<notin> set (room_items b)
                            then Ok (g1\<lparr>rooms := AList.update (brigrm g1)
                                       (b\<lparr>room_items := room_items b @ [''codes_token'']\<rparr>)
                                       (rooms g1)\<rparr>)
                            else Ok g1)
                     else Ok g1) (\<lambda>g2.
                  spend 3 (say (On_npc (You_restrain (npc_name n))) g2))))))"

subsection \<open>The console\<close>

definition use_console :: "Game \<Rightarrow> Game result" where
  "use_console g =
     (if player_room g \<noteq> cmdrm g then Ok (say (Console Must_be_at_console) g)
      else
        and_then (lookup (npcs g) (killer_id g) g) (\<lambda>k.
        and_then (lookup (rooms g) (brigrm g) g) (\<lambda>b.
          if ''codes_token'' \<in> set (room_items b) then
            Raise SystemExit
              (say (Console You_win)
                (say (Console (Killer_was (npc_name k)))
                  (say (Console Trajectory_restored)
                    (say (Console Splice_codes) g))))
          else
            let g1 = say (Console Seed_required) g;
                g2 = (if list_ex arrested (vals (npcs g1))
                      then say (Console Wrong_person_hint) (say (Console Someone_in_brig) g1)
                      else g1)
            in spend 1 g2)))"

subsection \<open>Persistence\<close>

text \<open>
  The object \<^verbatim>\<open>save\<close> hands to \<^verbatim>\<open>json.dump\<close>. It holds integers, booleans, strings,
  lists of strings and string-keyed dicts only, which \<^verbatim>\<open>json.load\<close> gives back as
  they were, so the file is modelled by the value itself; \<open>None\<close> is a missing file.
\<close>

record SaveData =
  d_time :: int
  d_player_room :: string
  d_inv :: "string list"
  d_rooms :: "(string list \<times> string list) dict"
  d_npcs :: "(string \<times> bool \<times> bool) dict"
  d_killer :: string
  d_killer_evidence :: "string list dict"

type_synonym savefile = "SaveData option"

definition dump :: "Game \<Rightarrow> SaveData" where
  "dump g =
     \<lparr>d_time = time g, d_player_room = player_room g, d_inv = inv_list g,
      d_rooms = map (\<lambda>(rid, r). (rid, room_items r, room_npcs r)) (rooms g),
      d_npcs = map (\<lambda>(nid, n). (nid, npc_room n, arrested n, cooperative n)) (npcs g),
      d_killer = killer_id g, d_killer_evidence = killer_evidence g\<rparr>"

definition save :: "Game \<Rightarrow> savefile \<Rightarrow> Game \<times> savefile" where
  "save g file = (say (Loop Saved) g, Some (dump g))"

fun load_rooms :: "(string list \<times> string list) dict \<Rightarrow> Game \<Rightarrow> Game result" where
  "load_rooms [] g = Ok g"
| "load_rooms ((rid, its, ns) # rest) g =
     and_then (lookup (rooms g) rid g) (\<lambda>r.
       load_rooms rest
         (g\<lparr>rooms := AList.update rid (r\<lparr>room_items := its, room_npcs := ns\<rparr>) (rooms g)\<rparr>))"

fun load_npcs :: "(string \<times> bool \<times> bool) dict \<Rightarrow> Game \<Rightarrow> Game result" where
  "load_npcs [] g = Ok g"
| "load_npcs ((nid, rm, arr, coop) # rest) g =
     and_then (lookup (npcs g) nid g) (\<lambda>n.
       load_npcs rest
         (g\<lparr>npcs := AList.update nid
               (n\<lparr>npc_room := rm, arrested := arr, cooperative := coop\<rparr>) (npcs g)\<rparr>))"

definition load :: "Game \<Rightarrow> savefile \<Rightarrow> Game result" where
  "load g file =
     (case file of
        None \<Rightarrow> Ok (say (Loop No_save_found) g)
      | Some d \<Rightarrow>
          and_then (load_rooms (d_rooms d)
                      (g\<lparr>time := d_time d, player_room := d_player_room d,
                         inv_list := d_inv d\<rparr>)) (\<lambda>g1.
          and_then (load_npcs (d_npcs d) g1) (\<lambda>g2.
            Ok (say (Loop Loaded)
                  (g2\<lparr>killer_id := d_killer d,
                      killer_evidence := d_killer_evidence d\<rparr>)))))"

subsection \<open>The command loop\<close>

text \<open>
  One turn of \<^verbatim>\<open>run\<close>. The input is end-of-file (or an interrupt) or a line,
  given as \<^verbatim>\<open>cmdline.strip().split()\<close>. The turn ends back at the prompt, leaves
  the loop, or is cut short by an exception, which nothing catches.
\<close>

datatype input = EOF | Line "string list"

datatype outcome = Prompt | Left | Uncaught exn

type_synonym world = "Game \<times> savefile"

text \<open>The reminder after a dispatched command.\<close>

definition remind :: "Game \<Rightarrow> Game" where
  "remind g = (if time g \<le> 15 \<and> 0 < time g then say (Loop (Alarms (time g))) g else g)"

definition after :: "Game result \<Rightarrow> savefile \<Rightarrow> outcome \<times> world" where
  "after r file =
     (case r of Ok g \<Rightarrow> (Prompt, remind g, file) | Raise e g \<Rightarrow> (Uncaught e, g, file))"

definition turn :: "input \<Rightarrow> world \<Rightarrow> outcome \<times> world" where
  "turn i w =
     (case w of (g, file) \<Rightarrow>
      (case i of
         EOF \<Rightarrow> (Left, say (Loop Goodbye) g, file)
       | Line [] \<Rightarrow> (Prompt, g, file)
       | Line (c # args) \<Rightarrow>
           let cmd = lower c in
           if cmd = ''quit'' \<or> cmd = ''exit'' then (Left, say (Loop Goodbye) g, file)
           else if cmd = ''help'' then after (Ok (say (Loop Help_2) (say (Loop Help_1) g))) file
           else if cmd = ''look'' then after (look g) file
           else if cmd = ''map'' then after (show_map g) file
           else if cmd = ''time'' then after (show_time g) file
           else if cmd = ''go'' \<or> cmd = ''move'' then
             (case args of
                [] \<Rightarrow> (Prompt, say (Loop Go_where) g, file)
              | d # ds \<Rightarrow> after (move d g) file)
           else if cmd = ''take'' then after (take_cmd args g) file
           else if cmd = ''drop'' then after (drop_cmd args g) file
           else if cmd = ''inv'' \<or> cmd = ''inventory'' then after (inv_show g) file
           else if cmd = ''inspect'' then after (inspect args g) file
           else if cmd = ''talk'' then after (talk args g) file
           else if cmd = ''accuse'' then after (accuse args g) file
           else if cmd = ''arrest'' then after (arrest args g) file
           else if cmd = ''use'' \<and> args \<noteq> [] \<and> lower (hd args) = ''console''
             then after (use_console g) file
           else if cmd = ''save'' then
             (case save g file of (g', file') \<Rightarrow> after (Ok g') file')
           else if cmd = ''load'' then after (load g file) file
           else after (Ok (say (Loop Unrecognized) g)) file))"

text \<open>
  The start of \<^verbatim>\<open>run\<close> on a fresh \<^verbatim>\<open>Game\<close>: the welcome line and the first
  \<^verbatim>\<open>look\<close>, up to the first prompt.
\<close>

definition start :: "(nat \<Rightarrow> nat) \<Rightarrow> Game result" where
  "start seed = and_then (Game_init seed) (\<lambda>g. look (say (Loop Welcome) g))"

text \<open>
  The states in which the program waits at its prompt, over any number of runs: a run
  begins with a fresh game and whatever save file earlier runs left, and the first run
  finds none.
\<close>

inductive reachable :: "world \<Rightarrow> bool" where
  first_run: "start seed = Ok g \<Longrightarrow> reachable (g, None)"
| next_run: "reachable (g0, file) \<Longrightarrow> start seed = Ok g \<Longrightarrow> reachable (g, file)"
| next_turn: "reachable w \<Longrightarrow> turn i w = (Prompt, w') \<Longrightarrow> reachable w'"

lemma pool_step:
  assumes "distinct pool" "j < length pool"
  shows "distinct (butlast (pool[j := last pool])) \<and>
         set (butlast (pool[j := last pool])) = set pool - {pool ! j} \<and>
         length (butlast (pool[j := last pool])) = length pool - 1"
proof (cases pool rule: rev_cases)
  case Nil
  with assms show ?thesis by simp
next
  case (snoc ys l)
  with assms have d: "distinct ys" and l: "l \<notin> set ys" by auto
  show ?thesis
  proof (cases "j < length ys")
    case True
    then have "butlast (pool[j := last pool]) = ys[j := l]"
      using snoc by (simp add: list_update_append)
    moreover have "distinct (ys[j := l])"
      using d l by (simp add: distinct_list_update)
    moreover have "set (ys[j := l]) = insert l (set ys - {ys ! j})"
      using d True by (rule set_update_distinct)
    moreover have "ys ! j \<noteq> l" using True l by auto
    ultimately show ?thesis using snoc True l by (auto simp: nth_append)
  next
    case False
    with assms snoc have "j = length ys" by simp
    then show ?thesis using snoc d l by (auto simp: list_update_append)
  qed
qed

lemma sample_pool_sound:
  "k \<le> length pool \<Longrightarrow> distinct pool \<Longrightarrow> sample_pool k pool g = (xs, g') \<Longrightarrow>
     length xs = k \<and> distinct xs \<and> set xs \<subseteq> set pool"
proof (induction k arbitrary: pool g xs g')
  case 0
  then show ?case by simp
next
  case (Suc k)
  let ?j = "rng g 0 mod length pool"
  let ?pool' = "butlast (pool[?j := last pool])"
  from Suc.prems(1) have ne: "0 < length pool" by (cases pool) simp_all
  then have j: "?j < length pool" by simp
  obtain ys g2 where rec: "sample_pool k ?pool' (g\<lparr>rng := \<lambda>k. rng g (Suc k)\<rparr>) = (ys, g2)"
    by (cases "sample_pool k ?pool' (g\<lparr>rng := \<lambda>k. rng g (Suc k)\<rparr>)")
  from Suc.prems(3) rec have xs: "xs = pool ! ?j # ys"
    by (simp add: randbelow_def)
  from pool_step [OF Suc.prems(2) j]
  have p: "distinct ?pool'" "set ?pool' = set pool - {pool ! ?j}" "length ?pool' = length pool - 1"
    by simp_all
  from Suc.prems(1) p(3) have "k \<le> length ?pool'" by simp
  from Suc.IH [OF this p(1) rec]
  have "length ys = k" "distinct ys" "set ys \<subseteq> set ?pool'" by simp_all
  with xs p(2) j show ?case by auto
qed

lemma sample_pool_frame: "sample_pool k pool g = (xs, g') \<Longrightarrow> g' = g\<lparr>rng := rng g'\<rparr>"
proof (induction k arbitrary: pool g xs g')
  case 0
  then show ?case by simp
next
  case (Suc k)
  then show ?case
    by (auto simp: randbelow_def split: prod.splits) fastforce
qed


definition the_rooms :: "Room dict" where
  "the_rooms =
     [(''atrium'', \<lparr>room_id = ''atrium'', room_name = ''Grand Atrium'', room_x = 2, room_y = 1,
         room_items = [''cuffs''], room_npcs = [], passable = True\<rparr>),
      (''gala'', \<lparr>room_id = ''gala'', room_name = ''Gala Dome'', room_x = 2, room_y = 0,
         room_items = [''cufflink'', ''manifest''], room_npcs = [], passable = True\<rparr>),
      (''labs'', \<lparr>room_id = ''labs'', room_name = ''Bio-Labs'', room_x = 1, room_y = 0,
         room_items = [''stimulant'', ''overwritten_log''], room_npcs = [], passable = True\<rparr>),
      (''hangar'', \<lparr>room_id = ''hangar'', room_name = ''Shuttle Hangar'', room_x = 4, room_y = 1,
         room_items = [''forged_card''], room_npcs = [], passable = True\<rparr>),
      (''command'', \<lparr>room_id = ''command'', room_name = ''Command Deck'', room_x = 3, room_y = 0,
         room_items = [''thruster_invoice''], room_npcs = [], passable = True\<rparr>),
      (''brig'', \<lparr>room_id = ''brig'', room_name = ''Security Brig'', room_x = 0, room_y = 1,
         room_items = [], room_npcs = [], passable = True\<rparr>),
      (''gardens'', \<lparr>room_id = ''gardens'', room_name = ''Starlight Gardens'', room_x = 1, room_y = 2,
         room_items = [''dna_fiber''], room_npcs = [], passable = True\<rparr>),
      (''suites'', \<lparr>room_id = ''suites'', room_name = ''VIP Suites'', room_x = 3, room_y = 2,
         room_items = [''weapon_garrote''], room_npcs = [], passable = True\<rparr>),
      (''service'', \<lparr>room_id = ''service'', room_name = ''Service Ducts'', room_x = 4, room_y = 2,
         room_items = [''maintenance_key''], room_npcs = [], passable = True\<rparr>),
      (''observ'', \<lparr>room_id = ''observ'', room_name = ''Observatory'', room_x = 0, room_y = 0,
         room_items = [''smeared_print''], room_npcs = [], passable = True\<rparr>)]"

definition the_items :: "Item dict" where
  "the_items =
     [(''cuffs'', \<lparr>item_id = ''cuffs'', item_name = ''Restraint Cuffs'', portable = True\<rparr>),
      (''weapon_garrote'', \<lparr>item_id = ''weapon_garrote'', item_name = ''Monofilament Garrote'', portable = True\<rparr>),
      (''forged_card'', \<lparr>item_id = ''forged_card'', item_name = ''Forged Access Card'', portable = True\<rparr>),
      (''overwritten_log'', \<lparr>item_id = ''overwritten_log'', item_name = ''Overwritten Maint Log'', portable = True\<rparr>),
      (''cufflink'', \<lparr>item_id = ''cufflink'', item_name = ''Bloodied Cufflink'', portable = True\<rparr>),
      (''stimulant'', \<lparr>item_id = ''stimulant'', item_name = ''Stimulant Vial'', portable = True\<rparr>),
      (''thruster_invoice'', \<lparr>item_id = ''thruster_invoice'', item_name = ''Thruster Fuel Invoice'', portable = True\<rparr>),
      (''manifest'', \<lparr>item_id = ''manifest'', item_name = ''Shuttle Manifest'', portable = True\<rparr>),
      (''dna_fiber'', \<lparr>item_id = ''dna_fiber'', item_name = ''Microscopic Fiber'', portable = True\<rparr>),
      (''smeared_print'', \<lparr>item_id = ''smeared_print'', item_name = ''Smeared Fingerprint'', portable = True\<rparr>),
      (''maintenance_key'', \<lparr>item_id = ''maintenance_key'', item_name = ''Maintenance Master Key'', portable = True\<rparr>),
      (''codes_token'', \<lparr>item_id = ''codes_token'', item_name = ''Master Codes Token'', portable = False\<rparr>)]"

definition the_npcs :: "NPC dict" where
  "the_npcs =
     [(''voss'', \<lparr>npc_id = ''voss'', npc_name = ''Dr. Selene Voss'', npc_room = ''labs'',
         cooperative = True, arrested = False\<rparr>),
      (''rourke'', \<lparr>npc_id = ''rourke'', npc_name = ''Admiral Kade Rourke'', npc_room = ''observ'',
         cooperative = True, arrested = False\<rparr>),
      (''chen'', \<lparr>npc_id = ''chen'', npc_name = ''Minister Lira Chen'', npc_room = ''gala'',
         cooperative = True, arrested = False\<rparr>),
      (''vale'', \<lparr>npc_id = ''vale'', npc_name = ''Orin Vale'', npc_room = ''suites'',
         cooperative = True, arrested = False\<rparr>),
      (''das'', \<lparr>npc_id = ''das'', npc_name = ''Prof. Mira Das'', npc_room = ''atrium'',
         cooperative = True, arrested = False\<rparr>),
      (''pax'', \<lparr>npc_id = ''pax'', npc_name = ''Pax Morita'', npc_room = ''service'',
         cooperative = True, arrested = False\<rparr>)]"

definition fresh :: "(nat \<Rightarrow> nat) \<Rightarrow> string \<Rightarrow> string list dict \<Rightarrow> Game" where
  "fresh r k ev =
     \<lparr>rng = r, time = 60, rooms = the_rooms, items = the_items, npcs = the_npcs,
      player_room = ''atrium'', inv_list = [], killer_id = k, killer_evidence = ev,
      brigrm = ''brig'', cmdrm = ''command'', out = []\<rparr>"

definition evidence_ok :: "string list dict \<Rightarrow> bool" where
  "evidence_ok ev =
     (\<forall>s e. map_of ev s = Some e \<longrightarrow>
        (\<exists>pool. map_of evidence_pool s = Some pool \<and> length pool = 3 \<and>
                length e = 3 \<and> distinct e \<and> set e \<subseteq> set pool))"

lemma build_world_blank:
  "build_world \<lparr>rng = seed, time = 60, rooms = [], items = [], npcs = [],
        player_room = ''atrium'', inv_list = [], killer_id = [], killer_evidence = [],
        brigrm = ''brig'', cmdrm = ''command'', out = []\<rparr> = fresh seed [] []"
  by (simp add: build_world_def add_room_def add_item_def add_npc_def fresh_def
      the_rooms_def the_items_def the_npcs_def Let_def)

lemma keys_the_npcs: "keys the_npcs = [''voss'', ''rourke'', ''chen'', ''vale'', ''das'', ''pax'']"
  by (simp add: keys_def the_npcs_def)

lemma pool_of_suspect:
  "s \<in> set (keys the_npcs) \<Longrightarrow>
     \<exists>pool. map_of evidence_pool s = Some pool \<and> length pool = 3 \<and> distinct pool"
  by (auto simp: keys_the_npcs evidence_pool_def)

lemma sample_3:
  assumes "length pool = 3" "distinct pool"
  shows "\<exists>e g'. sample pool 3 g = Ok (e, g') \<and> g' = g\<lparr>rng := rng g'\<rparr> \<and>
           length e = 3 \<and> distinct e \<and> set e \<subseteq> set pool"
proof -
  obtain e g' where s: "sample_pool 3 pool g = (e, g')" by (cases "sample_pool 3 pool g")
  from assms have "3 \<le> length pool" by simp
  from sample_pool_sound [OF this assms(2) s] sample_pool_frame [OF s] s assms(1)
  show ?thesis by (simp add: sample_def)
qed

lemma seed_evidence_ok:
  "evidence_ok acc \<Longrightarrow> set sus \<subseteq> set (keys the_npcs) \<Longrightarrow>
     \<exists>ev g'. seed_evidence sus acc g = Ok (ev, g') \<and> g' = g\<lparr>rng := rng g'\<rparr> \<and>
       evidence_ok ev \<and> set (keys ev) = set (keys acc) \<union> set sus"
proof (induction sus arbitrary: acc g)
  case Nil
  then show ?case by simp
next
  case (Cons s rest)
  from Cons.prems(2) have "s \<in> set (keys the_npcs)" by simp
  from pool_of_suspect [OF this] obtain pool
    where pool: "map_of evidence_pool s = Some pool" "length pool = 3" "distinct pool" by blast
  from sample_3 [OF pool(2,3)] obtain e g1
    where e: "sample pool 3 g = Ok (e, g1)" "g1 = g\<lparr>rng := rng g1\<rparr>"
      "length e = 3" "distinct e" "set e \<subseteq> set pool" by blast
  have ok': "evidence_ok (AList.update s e acc)"
    using Cons.prems(1) pool e(3,4,5)
    by (auto simp: evidence_ok_def AList.update_conv')
  from Cons.prems(2) have "set rest \<subseteq> set (keys the_npcs)" by simp
  from Cons.IH [OF ok' this, of g1] obtain ev g'
    where r: "seed_evidence rest (AList.update s e acc) g1 = Ok (ev, g')"
      "g' = g1\<lparr>rng := rng g'\<rparr>" "evidence_ok ev"
      "set (keys ev) = set (keys (AList.update s e acc)) \<union> set rest" by blast
  have "seed_evidence (s # rest) acc g = Ok (ev, g')"
    using pool(1) e(1) r(1) by (simp add: and_then_def)
  moreover have "g' = g\<lparr>rng := rng g'\<rparr>"
    using e(2) r(2) by (metis Game.surjective Game.update_convs(1))
  moreover have "set (keys ev) = set (keys acc) \<union> set (s # rest)"
    using r(4) by (auto simp: keys_def AList.dom_update)
  ultimately show ?case using r(3) by blast
qed

lemma scatter_placed:
  "\<forall>iid \<in> set movable. list_ex (\<lambda>r. iid \<in> set (room_items r)) (vals (rooms g)) \<Longrightarrow>
     scatter movable dr g = Ok g"
  by (induction movable) auto

lemma movable_placed:
  "\<forall>iid \<in> set (map fst (filter (\<lambda>(iid, it). portable it \<and> iid \<noteq> ''codes_token'') the_items)).
      list_ex (\<lambda>r. iid \<in> set (room_items r)) (vals the_rooms)"
  by (simp add: the_items_def the_rooms_def vals_def)

lemma Game_init_fresh:
  "\<exists>r k ev. Game_init seed = Ok (fresh r k ev) \<and> k \<in> set (keys the_npcs) \<and>
     evidence_ok ev \<and> set (keys ev) = set (keys the_npcs)"
proof -
  let ?k = "keys the_npcs ! (seed 0 mod 6)"
  let ?r1 = "\<lambda>k. seed (Suc k)"
  have "seed 0 mod 6 < length (keys the_npcs)"
    by (simp add: keys_the_npcs)
  then have k: "?k \<in> set (keys the_npcs)"
    by (rule nth_mem)
  have c: "choice (keys (npcs (fresh seed [] []))) (fresh seed [] []) = Ok (?k, fresh ?r1 [] [])"
    by (simp add: choice_def randbelow_def fresh_def keys_the_npcs)
  have "evidence_ok []" by (simp add: evidence_ok_def)
  from seed_evidence_ok [OF this subset_refl, of "fresh ?r1 ?k []"] obtain ev g'
    where e: "seed_evidence (keys the_npcs) [] (fresh ?r1 ?k []) = Ok (ev, g')"
      "g' = (fresh ?r1 ?k [])\<lparr>rng := rng g'\<rparr>" "evidence_ok ev"
      "set (keys ev) = set (keys the_npcs)" by (auto simp: keys_def)
  have k1: "(fresh ?r1 [] [])\<lparr>killer_id := ?k\<rparr> = fresh ?r1 ?k []"
    by (simp add: fresh_def)
  have "g'\<lparr>killer_evidence := ev\<rparr> = (fresh ?r1 ?k [])\<lparr>rng := rng g', killer_evidence := ev\<rparr>"
    using e(2) by simp
  then have g': "g'\<lparr>killer_evidence := ev\<rparr> = fresh (rng g') ?k ev"
    by (simp add: fresh_def)
  have f: "items (fresh (rng g') ?k ev) = the_items" "rooms (fresh (rng g') ?k ev) = the_rooms"
    by (simp_all add: fresh_def)
  have sc: "scatter (map fst (filter (\<lambda>(iid, it). portable it \<and> iid \<noteq> ''codes_token'') the_items)) dr
          (fresh (rng g') ?k ev) = Ok (fresh (rng g') ?k ev)" for dr
    by (rule scatter_placed, simp only: f, rule movable_placed)
  have n0: "npcs (fresh seed [] []) = the_npcs"
    by (simp add: fresh_def)
  have "seed_case (fresh seed [] []) = Ok (fresh (rng g') ?k ev)"
    using c by (simp only: seed_case_def Let_def n0 and_then_def result.case prod.case k1 e(1) g' f sc)
  then have "Game_init seed = Ok (fresh (rng g') ?k ev)"
    by (simp only: Game_init_def build_world_blank)
  with k e(3,4) show ?thesis by blast
qed

definition tame :: "Game \<Rightarrow> Game result \<Rightarrow> bool" where
  "tame g r \<longleftrightarrow>
     killer_id (final r) = killer_id g \<and>
     (0 \<le> time g \<longrightarrow> 0 \<le> time (final r) \<and> time (final r) \<le> time g) \<and>
     (\<forall>g'. r = Ok g' \<longrightarrow> 0 < time g \<longrightarrow> 0 < time g')"

lemma find_item_raise: "find_item name pool g = Raise e g' \<Longrightarrow> g' = g \<and> e = KeyError"
  by (induction pool) (auto simp: and_then_def lookup_def split: option.splits if_splits)

lemma find_npc_raise: "find_npc name pool g = Raise e g' \<Longrightarrow> g' = g \<and> e = KeyError"
  by (induction pool) (auto simp: and_then_def lookup_def split: option.splits if_splits)

lemma lookup_all_raise: "lookup_all d ks g = Raise e g' \<Longrightarrow> g' = g \<and> e = KeyError"
  by (induction ks arbitrary: e g') (auto simp: and_then_def lookup_def split: option.splits result.splits)

lemmas op_simps = and_then_def lookup_def current_room_def spend_def say_def final_def Let_def
  truthy_def tame_def set_npc_def sync_npcs_in_room_def random_below_quarter_def

lemma fold_say: "fold (\<lambda>row. say (f row)) rows g = g\<lparr>out := out g @ map f rows\<rparr>"
  by (induction rows arbitrary: g) (simp_all add: say_def)

lemma tame_Ok_say: "tame g (Ok (say m g))"
  by (simp add: op_simps)

lemma tame_Raise: "tame g (Raise e g)"
  by (simp add: op_simps)

lemma tame_look: "tame g (look g)"
  unfolding look_def
  by (auto simp: op_simps split: option.splits result.splits if_splits
      dest!: lookup_all_raise)

lemma tame_show_map: "tame g (show_map g)"
  unfolding show_map_def
  by (auto simp: op_simps fold_say split: option.splits result.splits if_splits)

lemma tame_show_time: "tame g (show_time g)"
  unfolding show_time_def by (auto simp: op_simps)

lemma tame_inv_show: "tame g (inv_show g)"
  unfolding inv_show_def
  by (auto simp: op_simps split: option.splits result.splits if_splits
      dest!: lookup_all_raise)

lemma tame_trans: "tame g (Ok g1) \<Longrightarrow> tame g1 r \<Longrightarrow> tame g r"
  by (auto simp: tame_def final_def split: result.splits)

lemma tame_spend: "tame g (spend m g)" if "0 \<le> m"
  using that by (auto simp: op_simps)

lemma tame_and_then: "tame g r \<Longrightarrow> (\<And>g1. r = Ok g1 \<Longrightarrow> tame g1 (f g1)) \<Longrightarrow> tame g (and_then r f)"
  by (cases r) (auto simp: and_then_def intro: tame_trans)

lemma tame_move: "tame g (move d g)"
proof -
  have 1: "tame g (look (sync_npcs_in_room (g\<lparr>player_room := p\<rparr>)))" for p
    using tame_look [of "sync_npcs_in_room (g\<lparr>player_room := p\<rparr>)"]
    by (simp add: tame_def sync_npcs_in_room_def)
  have 2: "tame g (and_then (look (sync_npcs_in_room (g\<lparr>player_room := p\<rparr>))) (spend 2))" for p
    by (rule tame_and_then [OF 1]) (simp add: tame_spend)
  show ?thesis
    unfolding move_def using 2
    by (auto simp: and_then_def lookup_def current_room_def tame_Ok_say tame_Raise
        split: option.splits result.splits)
qed

lemma tame_take: "tame g (take_cmd args g)"
  unfolding take_cmd_def
  by (auto simp: op_simps split: option.splits result.splits if_splits
      dest!: find_item_raise)

lemma tame_drop: "tame g (drop_cmd args g)"
  unfolding drop_cmd_def
  by (auto simp: op_simps split: option.splits result.splits if_splits
      dest!: find_item_raise)

lemma tame_inspect: "tame g (inspect args g)"
  unfolding inspect_def
  by (auto simp: op_simps split: option.splits result.splits if_splits
      dest!: find_item_raise find_npc_raise)

lemma tame_talk: "tame g (talk args g)"
  unfolding talk_def
  by (auto simp: op_simps split: option.splits result.splits if_splits
      dest!: find_npc_raise)

lemma tame_accuse: "tame g (accuse args g)"
  unfolding accuse_def
  by (auto simp: op_simps split: option.splits result.splits if_splits list.splits
      dest!: lookup_all_raise)

lemma tame_arrest: "tame g (arrest args g)"
  unfolding arrest_def
  by (auto simp: op_simps split: option.splits result.splits if_splits
      dest!: find_npc_raise)

lemma tame_use_console: "tame g (use_console g)"
  unfolding use_console_def
  by (auto simp: op_simps split: option.splits result.splits if_splits)

definition is_load :: "input \<Rightarrow> bool" where
  "is_load i =
     (case i of EOF \<Rightarrow> False
      | Line parts \<Rightarrow> (case parts of [] \<Rightarrow> False | c # args \<Rightarrow> lower c = ''load''))"

fun play :: "input list \<Rightarrow> world \<Rightarrow> outcome \<times> world" where
  "play [] w = (Prompt, w)"
| "play (i # rest) w =
     (case turn i w of (oc, w') \<Rightarrow> (case oc of Prompt \<Rightarrow> play rest w' | _ \<Rightarrow> (oc, w')))"

definition lost :: "Game result \<Rightarrow> bool" where
  "lost r = (case r of Ok g \<Rightarrow> False
             | Raise e g \<Rightarrow> e = SystemExit \<and> out g \<noteq> [] \<and> last (out g) = Console Station_falls)"

definition won :: "Game result \<Rightarrow> bool" where
  "won r = (case r of Ok g \<Rightarrow> False
            | Raise e g \<Rightarrow> e = SystemExit \<and> out g \<noteq> [] \<and> last (out g) = Console You_win)"

definition settled :: "Game \<Rightarrow> outcome \<times> world \<Rightarrow> bool" where
  "settled g t \<longleftrightarrow>
     (case t of (oc, g', file') \<Rightarrow>
        killer_id g' = killer_id g \<and>
        (0 \<le> time g \<longrightarrow> 0 \<le> time g' \<and> time g' \<le> time g) \<and>
        (oc = Prompt \<longrightarrow> 0 < time g \<longrightarrow> 0 < time g'))"

lemma settled_after: "tame g r \<Longrightarrow> settled g (after r file)"
  by (cases r) (auto simp: settled_def tame_def after_def remind_def say_def final_def)

lemma settled_say: "settled g (oc, say m g, file)"
  by (simp add: settled_def say_def)

lemma settled_same: "settled g (oc, g, file)"
  by (simp add: settled_def)

lemma settled_turn: "\<not> is_load i \<Longrightarrow> settled g (turn i (g, file))"
proof (cases i)
  case EOF
  then show ?thesis by (simp add: turn_def settled_say)
next
  case (Line parts)
  assume nl: "\<not> is_load i"
  show ?thesis
  proof (cases parts)
    case Nil
    with Line show ?thesis by (simp add: turn_def settled_same)
  next
    case (Cons c args)
    with Line nl have "lower c \<noteq> ''load''" by (simp add: is_load_def)
    then show ?thesis
      unfolding Line Cons turn_def Let_def save_def
      by (simp add: settled_after settled_say tame_look tame_show_map tame_show_time
          tame_move tame_take tame_drop tame_inv_show tame_inspect tame_talk tame_accuse
          tame_arrest tame_use_console tame_Ok_say tame_trans [OF tame_Ok_say tame_Ok_say]
          split: list.split)
  qed
qed

lemma and_then_weak_cong: "r = r' \<Longrightarrow> and_then r f = and_then r' f"
  by simp

lemma sample_pool_numeral:
  "sample_pool (numeral n) pool g =
     (case randbelow (length pool) g of (j, g1) \<Rightarrow>
        (case sample_pool (pred_numeral n) (butlast (pool[j := last pool])) g1 of
           (xs, g2) \<Rightarrow> (pool ! j # xs, g2)))"
  by (simp only: numeral_eq_Suc sample_pool.simps)

lemmas run_congs = and_then_weak_cong result.case_cong_weak option.case_cong_weak
  prod.case_cong_weak if_weak_cong let_weak_cong list.case_cong_weak outcome.case_cong_weak
  input.case_cong_weak

lemmas run_defs = and_then_def lookup_def current_room_def spend_def say_def final_def Let_def
  truthy_def set_npc_def sync_npcs_in_room_def random_below_quarter_def randbelow_def
  choice_def sample_def sample_pool_numeral keys_def vals_def room_at_xy_def DIRS_def
  look_def show_map_def show_time_def inv_show_def move_def take_cmd_def drop_cmd_def
  inspect_def talk_def accuse_def arrest_def use_console_def save_def load_def dump_def
  turn_def after_def remind_def lower_def

definition ev0 :: "string list dict" where
  "ev0 =
     [(''voss'', [''dna_fiber'', ''forged_card'', ''stimulant'']),
      (''rourke'', [''cufflink'', ''thruster_invoice'', ''smeared_print'']),
      (''chen'', [''manifest'', ''weapon_garrote'', ''forged_card'']),
      (''vale'', [''cufflink'', ''stimulant'', ''manifest'']),
      (''das'', [''overwritten_log'', ''smeared_print'', ''dna_fiber'']),
      (''pax'', [''maintenance_key'', ''thruster_invoice'', ''overwritten_log''])]"

lemma seed_evidence_zero:
  "seed_evidence (keys the_npcs) [] (fresh (\<lambda>_. 0) ''voss'' []) = Ok (ev0, fresh (\<lambda>_. 0) ''voss'' [])"
  by (simp add: the_npcs_def evidence_pool_def fresh_def ev0_def run_defs cong: run_congs)


definition G0 :: Game where
  "G0 = (fresh (\<lambda>_. 0) ''voss'' ev0)
          \<lparr>out := [Loop Welcome, View (Room_header ''Grand Atrium''),
                   View (Items_here [''Restraint Cuffs'']), View (Exits [''n''])]\<rparr>"

lemma Game_init_zero: "Game_init (\<lambda>_. 0) = Ok (fresh (\<lambda>_. 0) ''voss'' ev0)"
proof -
  have c: "choice (keys (npcs (fresh (\<lambda>_. 0) [] []))) (fresh (\<lambda>_. 0) [] []) =
             Ok (''voss'', fresh (\<lambda>_. 0) [] [])"
    by (simp add: choice_def randbelow_def fresh_def keys_the_npcs)
  have k1: "(fresh (\<lambda>_. 0) [] [])\<lparr>killer_id := ''voss''\<rparr> = fresh (\<lambda>_. 0) ''voss'' []"
    by (simp add: fresh_def)
  have k2: "(fresh (\<lambda>_. 0) ''voss'' [])\<lparr>killer_evidence := ev0\<rparr> = fresh (\<lambda>_. 0) ''voss'' ev0"
    by (simp add: fresh_def)
  have f: "items (fresh (\<lambda>_. 0) ''voss'' ev0) = the_items"
    "rooms (fresh (\<lambda>_. 0) ''voss'' ev0) = the_rooms"
    "npcs (fresh (\<lambda>_. 0) [] []) = the_npcs"
    by (simp_all add: fresh_def)
  have sc: "scatter (map fst (filter (\<lambda>(iid, it). portable it \<and> iid \<noteq> ''codes_token'') the_items)) dr
          (fresh (\<lambda>_. 0) ''voss'' ev0) = Ok (fresh (\<lambda>_. 0) ''voss'' ev0)" for dr
    by (rule scatter_placed, simp only: f, rule movable_placed)
  have "seed_case (fresh (\<lambda>_. 0) [] []) = Ok (fresh (\<lambda>_. 0) ''voss'' ev0)"
    using c by (simp only: seed_case_def Let_def f and_then_def result.case prod.case k1 k2
        seed_evidence_zero sc)
  then show ?thesis
    by (simp only: Game_init_def build_world_blank)
qed

lemma look_fresh:
  "look (say (Loop Welcome) (fresh r k ev)) =
     Ok ((fresh r k ev)\<lparr>out := [Loop Welcome, View (Room_header ''Grand Atrium''),
                   View (Items_here [''Restraint Cuffs'']), View (Exits [''n''])]\<rparr>)"
  by (simp add: fresh_def the_rooms_def the_items_def run_defs cong: run_congs)

lemma start_zero: "start (\<lambda>_. 0) = Ok G0"
  by (simp add: start_def Game_init_zero and_then_def look_fresh G0_def)

lemma start_fresh:
  "\<exists>r k ev. start seed =
       Ok ((fresh r k ev)\<lparr>out := [Loop Welcome, View (Room_header ''Grand Atrium''),
                   View (Items_here [''Restraint Cuffs'']), View (Exits [''n''])]\<rparr>) \<and>
     Game_init seed = Ok (fresh r k ev) \<and>
     k \<in> set (keys the_npcs) \<and> evidence_ok ev \<and> set (keys ev) = set (keys the_npcs)"
proof -
  from Game_init_fresh [of seed] obtain r k ev
    where "Game_init seed = Ok (fresh r k ev)" "k \<in> set (keys the_npcs)" "evidence_ok ev"
      "set (keys ev) = set (keys the_npcs)" by blast
  then show ?thesis
    by (auto simp: start_def and_then_def look_fresh)
qed

lemma start_time: "start seed = Ok g \<Longrightarrow> time g = 60"
  using start_fresh [of seed] by (auto simp: fresh_def)

lemma load_rooms_time: "time (final (load_rooms ds g)) = time g"
  by (induction ds g rule: load_rooms.induct)
    (auto simp: and_then_def lookup_def final_def split: option.splits)

lemma load_npcs_time: "time (final (load_npcs ds g)) = time g"
  by (induction ds g rule: load_npcs.induct)
    (auto simp: and_then_def lookup_def final_def split: option.splits)

lemma load_time:
  "time (final (load g file)) = (case file of None \<Rightarrow> time g | Some d \<Rightarrow> d_time d)"
proof (cases "file")
  case None
  then show ?thesis by (simp add: load_def final_def say_def)
next
  case (Some d)
  let ?g0 = "g\<lparr>time := d_time d, player_room := d_player_room d, inv_list := d_inv d\<rparr>"
  have 1: "time (final (load_rooms (d_rooms d) ?g0)) = d_time d"
    by (simp add: load_rooms_time)
  show ?thesis
  proof (cases "load_rooms (d_rooms d) ?g0")
    case (Raise e g1)
    with 1 Some show ?thesis by (simp add: load_def and_then_def final_def)
  next
    case (Ok g1)
    with 1 have t1: "time g1 = d_time d" by (simp add: final_def)
    have "time (final (load_npcs (d_npcs d) g1)) = d_time d"
      by (simp add: load_npcs_time t1)
    with Ok Some show ?thesis
      by (cases "load_npcs (d_npcs d) g1") (simp_all add: load_def and_then_def final_def say_def)
  qed
qed

definition timed :: "world \<Rightarrow> bool" where
  "timed w \<longleftrightarrow>
     (case w of (g, file) \<Rightarrow>
        0 < time g \<and> (case file of None \<Rightarrow> True | Some d \<Rightarrow> 0 < d_time d))"

lemma turn_load:
  "is_load i \<Longrightarrow> turn i (g, file) = after (load g file) file"
  by (auto simp: is_load_def turn_def split: input.splits list.splits)

lemma turn_file:
  "turn i (g, file) = (oc, g', file') \<Longrightarrow> file' = file \<or> file' = Some (dump g)"
  by (auto simp: turn_def after_def save_def Let_def
      split: input.splits list.splits if_splits result.splits)

lemma timed_turn:
  assumes "timed (g, file)" "turn i (g, file) = (Prompt, g', file')"
  shows "timed (g', file')"
proof -
  from assms(1) have t: "0 < time g" and f: "case file of None \<Rightarrow> True | Some d \<Rightarrow> 0 < d_time d"
    by (simp_all add: timed_def)
  from turn_file [OF assms(2)] t f
  have f': "case file' of None \<Rightarrow> True | Some d \<Rightarrow> 0 < d_time d"
    by (auto simp: dump_def)
  have "0 < time g'"
  proof (cases "is_load i")
    case False
    from settled_turn [OF this, of g "file"] assms(2) t show ?thesis
      by (simp add: settled_def)
  next
    case True
    from turn_load [OF this, of g "file"] assms(2)
    obtain g1 where l: "load g file = Ok g1" and g': "g' = remind g1"
      by (auto simp: after_def split: result.splits)
    from load_time [of g "file"] l have "time g1 = (case file of None \<Rightarrow> time g | Some d \<Rightarrow> d_time d)"
      by (simp add: final_def)
    with t f g' show ?thesis
      by (auto simp: remind_def say_def split: option.splits)
  qed
  with f' show ?thesis by (simp add: timed_def)
qed

lemma reachable_timed: "reachable w \<Longrightarrow> timed w"
proof (induction rule: reachable.induct)
  case (first_run seed g)
  then show ?case by (simp add: timed_def start_time)
next
  case (next_run g0 fl seed g)
  then show ?case by (simp add: timed_def start_time)
next
  case (next_turn w i w')
  then show ?case
    using timed_turn [of "fst w" "snd w" i "fst w'" "snd w'"] by simp
qed

lemma play_killer:
  "list_all (\<lambda>i. \<not> is_load i) inputs \<Longrightarrow>
     killer_id (fst (snd (play inputs (g, file)))) = killer_id g"
proof (induction inputs arbitrary: g "file")
  case Nil
  then show ?case by simp
next
  case (Cons i rest)
  obtain oc g1 file1 where t: "turn i (g, file) = (oc, g1, file1)"
    by (cases "turn i (g, file)") auto
  from Cons.prems have "\<not> is_load i" by simp
  from settled_turn [OF this, of g "file"] t have k: "killer_id g1 = killer_id g"
    by (simp add: settled_def)
  from Cons.prems have "list_all (\<lambda>i. \<not> is_load i) rest" by simp
  from Cons.IH [OF this, of g1 file1] k t show ?case
    by (cases oc) simp_all
qed

lemmas tables = fresh_def the_rooms_def the_items_def the_npcs_def ev0_def G0_def

lemma reachable_G0: "reachable (G0, None)"
  by (rule reachable.first_run [OF start_zero])

text \<open>
  Claim C6. Whatever the seed, \<^verbatim>\<open>Game.__init__\<close> returns, and in the game it returns
  every NPC of the table has an evidence entry of exactly three pairwise distinct item
  identifiers, all taken from that NPC's three-item pool in \<open>evidence_pool\<close>.
\<close>

theorem evidence_three_distinct_from_pool:
  "\<exists>g. Game_init seed = Ok g \<and>
     (\<forall>nid \<in> set (keys (npcs g)).
        \<exists>ev pool. map_of (killer_evidence g) nid = Some ev \<and>
          map_of evidence_pool nid = Some pool \<and> length pool = 3 \<and>
          length ev = 3 \<and> distinct ev \<and> set ev \<subseteq> set pool)"
proof -
  from Game_init_fresh [of seed] obtain r k ev
    where g: "Game_init seed = Ok (fresh r k ev)" and ok: "evidence_ok ev"
      and ks: "set (keys ev) = set (keys the_npcs)" by blast
  have "\<exists>e pool. map_of ev nid = Some e \<and> map_of evidence_pool nid = Some pool \<and>
          length pool = 3 \<and> length e = 3 \<and> distinct e \<and> set e \<subseteq> set pool"
    if "nid \<in> set (keys the_npcs)" for nid
  proof -
    from that ks have "nid \<in> fst ` set ev" by (simp add: keys_def)
    then obtain e where "map_of ev nid = Some e"
      by (cases "map_of ev nid") (auto simp: map_of_eq_None_iff)
    with ok show ?thesis by (auto simp: evidence_ok_def)
  qed
  with g show ?thesis by (auto simp: fresh_def)
qed

theorem evidence_three_distinct_from_pool_witness:
  "\<exists>g ev. Game_init (\<lambda>_. 0) = Ok g \<and> ''das'' \<in> set (keys (npcs g)) \<and>
     map_of (killer_evidence g) ''das'' = Some ev \<and> length ev = 3 \<and> distinct ev \<and>
     set ev \<subseteq> {''overwritten_log'', ''dna_fiber'', ''smeared_print''}"
  using evidence_three_distinct_from_pool [of "\<lambda>_. 0"]
  by (auto simp: Game_init_zero fresh_def keys_the_npcs evidence_pool_def)

text \<open>
  Claim C7. Initialisation succeeds for every seed and leaves \<open>killer_id\<close> equal to the
  identifier of exactly one NPC of the table. From any game and save file, a turn on
  any input other than the \<^verbatim>\<open>load\<close> command ends (at the prompt or not) in a game with
  the same \<open>killer_id\<close>, and so does any sequence of such turns.
\<close>

theorem culprit_fixed:
  "(\<exists>g0. Game_init seed = Ok g0 \<and>
       length (filter (\<lambda>nid. nid = killer_id g0) (keys (npcs g0))) = 1) \<and>
   (\<not> is_load i \<longrightarrow> killer_id (fst (snd (turn i (g, file)))) = killer_id g) \<and>
   (list_all (\<lambda>i. \<not> is_load i) inputs \<longrightarrow>
      killer_id (fst (snd (play inputs (g, file)))) = killer_id g)"
proof -
  from Game_init_fresh [of seed] obtain r k ev
    where g0: "Game_init seed = Ok (fresh r k ev)" and k: "k \<in> set (keys the_npcs)" by blast
  from k have "length (filter (\<lambda>nid. nid = k) (keys the_npcs)) = 1"
    by (auto simp: keys_the_npcs)
  with g0 have 1: "\<exists>g0. Game_init seed = Ok g0 \<and>
       length (filter (\<lambda>nid. nid = killer_id g0) (keys (npcs g0))) = 1"
    by (simp add: fresh_def)
  have 2: "killer_id (fst (snd (turn i (g, file)))) = killer_id g" if "\<not> is_load i"
    using settled_turn [OF that, of g "file"]
    by (cases "turn i (g, file)") (simp add: settled_def)
  from 1 2 play_killer show ?thesis by blast
qed

lemma turn_take_cuffs:
  "turn (Line [''take'', ''cuffs'']) (G0, None) =
     (Prompt, G0\<lparr>time := 59, inv_list := [''cuffs''],
        rooms := AList.update ''atrium'' \<lparr>room_id = ''atrium'', room_name = ''Grand Atrium'',
          room_x = 2, room_y = 1, room_items = [], room_npcs = [], passable = True\<rparr> the_rooms,
        out := out G0 @ [On_item (You_take ''Restraint Cuffs'')]\<rparr>, None)"
  by (simp add: tables run_defs lower_chr_def char_of_def bit_Suc_0_iff cong: run_congs)


lemma turn_take_by_name:
  "fst (snd (turn (Line [''TAKE'', ''Restraint'', ''CUFFS'']) (G0, None))) =
     G0\<lparr>time := 59, inv_list := [''cuffs''],
        rooms := AList.update ''atrium'' \<lparr>room_id = ''atrium'', room_name = ''Grand Atrium'',
          room_x = 2, room_y = 1, room_items = [], room_npcs = [], passable = True\<rparr> the_rooms,
        out := out G0 @ [On_item (You_take ''Restraint Cuffs'')]\<rparr>"
  by (simp add: tables run_defs lower_chr_def char_of_def bit_Suc_0_iff cong: run_congs)

lemma not_load_examples:
  "\<not> is_load (Line [''take'', ''cuffs''])" "\<not> is_load (Line [''look''])"
  "\<not> is_load (Line [''go'', ''n''])"
  by code_simp+

theorem culprit_fixed_witness:
  "Game_init (\<lambda>_. 0) = Ok (fresh (\<lambda>_. 0) ''voss'' ev0) \<and>
   length (filter (\<lambda>nid. nid = ''voss'') (keys the_npcs)) = 1 \<and>
   \<not> is_load (Line [''take'', ''cuffs'']) \<and>
   killer_id (fst (snd (turn (Line [''take'', ''cuffs'']) (G0, None)))) = ''voss'' \<and>
   list_all (\<lambda>i. \<not> is_load i) [Line [''take'', ''cuffs''], Line [''look'']] \<and>
   killer_id (fst (snd (play [Line [''take'', ''cuffs''], Line [''look'']] (G0, None)))) = ''voss''"
  using culprit_fixed [of "\<lambda>_. 0" "Line [''take'', ''cuffs'']" G0 None
      "[Line [''take'', ''cuffs''], Line [''look'']]"]
  by (simp add: Game_init_zero not_load_examples keys_the_npcs)
    (simp add: G0_def fresh_def)

text \<open>
  Claim C3. At every reachable prompt the timer is non-negative, and it still is after
  any turn, however the turn ends; a turn on an input other than \<^verbatim>\<open>load\<close> never leaves
  it larger than it was. \<^verbatim>\<open>spend\<close> sets the timer to the difference clamped at zero,
  and it ends the game with the loss message exactly when that clamped value is zero;
  otherwise it returns.
\<close>

theorem timer_monotone:
  "reachable w \<Longrightarrow>
     0 \<le> time (fst w) \<and> 0 \<le> time (fst (snd (turn i w))) \<and>
     (\<not> is_load i \<longrightarrow> time (fst (snd (turn i w))) \<le> time (fst w)) \<and>
     time (final (spend m g)) = max 0 (time g - m) \<and>
     (lost (spend m g) \<longleftrightarrow> max 0 (time g - m) = 0) \<and>
     ((\<exists>g'. spend m g = Ok g') \<longleftrightarrow> max 0 (time g - m) \<noteq> 0)"
proof -
  assume r: "reachable w"
  obtain g0 fl where w: "w = (g0, fl)" by (cases w rule: prod.exhaust)
  from reachable_timed [OF r] w
  have t: "0 < time g0" and f: "case fl of None \<Rightarrow> True | Some d \<Rightarrow> 0 < d_time d"
    by (simp_all add: timed_def)
  have nl: "0 \<le> time (fst (snd (turn i w))) \<and> time (fst (snd (turn i w))) \<le> time (fst w)"
    if "\<not> is_load i"
    using settled_turn [OF that, of g0 fl] t w
    by (cases "turn i (g0, fl)") (simp add: settled_def)
  have ld: "0 \<le> time (fst (snd (turn i w)))" if "is_load i"
  proof -
    from load_time [of g0 fl] t f have "0 < time (final (load g0 fl))"
      by (auto split: option.splits)
    then show ?thesis
      using turn_load [OF that, of g0 fl] w
      by (cases "load g0 fl") (auto simp: after_def final_def remind_def say_def)
  qed
  have sp: "time (final (spend m g)) = max 0 (time g - m) \<and>
     (lost (spend m g) \<longleftrightarrow> max 0 (time g - m) = 0) \<and>
     ((\<exists>g'. spend m g = Ok g') \<longleftrightarrow> max 0 (time g - m) \<noteq> 0)"
    by (auto simp: spend_def Let_def final_def lost_def say_def)
  from t w nl ld sp show ?thesis by (cases "is_load i") auto
qed

lemma turn_go_n_time:
  "time (fst (snd (turn (Line [''go'', ''n'']) (G0, None)))) = 58 \<and>
   fst (turn (Line [''go'', ''n'']) (G0, None)) = Prompt"
  by (simp add: tables run_defs lower_chr_def char_of_def bit_Suc_0_iff cong: run_congs)

theorem timer_monotone_witness:
  "reachable (G0, None) \<and> time G0 = 60 \<and> \<not> is_load (Line [''go'', ''n'']) \<and>
   time (fst (snd (turn (Line [''go'', ''n'']) (G0, None)))) = 58 \<and>
   time (final (spend 3 (G0\<lparr>time := 2\<rparr>))) = 0 \<and> lost (spend 3 (G0\<lparr>time := 2\<rparr>)) \<and>
   spend 3 G0 = Ok (G0\<lparr>time := 57\<rparr>)"
  using timer_monotone [OF reachable_G0, of "Line [''go'', ''n'']" 3 "G0\<lparr>time := 2\<rparr>"]
    timer_monotone [OF reachable_G0, of "Line [''go'', ''n'']" 3 "G0"]
  by (simp add: reachable_G0 turn_go_n_time not_load_examples)
    (simp add: G0_def fresh_def spend_def)

text \<open>
  Claim C10. In every reachable state, that is whenever the loop waits at its prompt in
  a run whose save file, if any, was written by the program itself, the timer is
  strictly positive; so a turn that comes back to the prompt leaves it at least 1, and
  every other turn has ended the process.
\<close>

theorem prompt_timer_positive:
  "reachable w \<Longrightarrow>
     0 < time (fst w) \<and> (fst (turn i w) = Prompt \<longrightarrow> 1 \<le> time (fst (snd (turn i w))))"
proof -
  assume r: "reachable w"
  from reachable_timed [OF r] have t: "0 < time (fst w)"
    by (cases w rule: prod.exhaust) (simp add: timed_def)
  have "1 \<le> time (fst (snd (turn i w)))" if p: "fst (turn i w) = Prompt"
  proof -
    from p have "turn i w = (Prompt, snd (turn i w))"
      by (cases "turn i w") simp
    from reachable.next_turn [OF r this] have "timed (snd (turn i w))"
      by (rule reachable_timed)
    then show ?thesis
      by (cases "snd (turn i w)" rule: prod.exhaust) (simp add: timed_def)
  qed
  with t show ?thesis by blast
qed

theorem prompt_timer_positive_witness:
  "reachable (G0, None) \<and> 0 < time G0 \<and> fst (turn (Line [''go'', ''n'']) (G0, None)) = Prompt \<and>
   1 \<le> time (fst (snd (turn (Line [''go'', ''n'']) (G0, None))))"
  using prompt_timer_positive [OF reachable_G0, of "Line [''go'', ''n'']"]
  by (simp add: reachable_G0 turn_go_n_time)

subsection \<open>Dictionaries as association lists\<close>

lemma map_of_split:
  "map_of d k = Some v \<Longrightarrow> \<exists>xs ys. d = xs @ (k, v) # ys \<and> k \<notin> fst ` set xs"
proof (induction d)
  case Nil
  then show ?case by simp
next
  case (Cons p d)
  show ?case
  proof (cases "fst p = k")
    case True
    with Cons.prems have "p # d = [] @ (k, v) # d" by (cases p) auto
    then show ?thesis by (metis empty_iff image_empty list.set(1))
  next
    case False
    with Cons.prems have "map_of d k = Some v" by (cases p) auto
    from Cons.IH [OF this] obtain xs ys where "d = xs @ (k, v) # ys" "k \<notin> fst ` set xs"
      by blast
    with False have "p # d = (p # xs) @ (k, v) # ys \<and> k \<notin> fst ` set (p # xs)" by auto
    then show ?thesis by blast
  qed
qed

lemma update_split:
  "k \<notin> fst ` set xs \<Longrightarrow> AList.update k v (xs @ (k, u) # ys) = xs @ (k, v) # ys"
  by (induction xs) auto

lemma map_of_skip: "k \<notin> fst ` set xs \<Longrightarrow> map_of (xs @ ys) k = map_of ys k"
  by (induction xs) auto

subsection \<open>What the invariant is about\<close>

definition core ::
  "Game \<Rightarrow> Room dict \<times> Item dict \<times> NPC dict \<times> string \<times> string list \<times> string \<times>
     string list dict \<times> string \<times> string" where
  "core g = (rooms g, items g, npcs g, player_room g, inv_list g, killer_id g,
             killer_evidence g, brigrm g, cmdrm g)"

definition room_static :: "Room \<Rightarrow> Room" where
  "room_static r = r\<lparr>room_items := [], room_npcs := []\<rparr>"

definition npc_static :: "NPC \<Rightarrow> NPC" where
  "npc_static n = n\<lparr>npc_room := [], cooperative := True, arrested := False\<rparr>"

definition same_world :: "Game \<Rightarrow> bool" where
  "same_world g \<longleftrightarrow>
     map (\<lambda>(k, r). (k, room_static r)) (rooms g) = map (\<lambda>(k, r). (k, room_static r)) the_rooms \<and>
     items g = the_items \<and>
     map (\<lambda>(k, n). (k, npc_static n)) (npcs g) = map (\<lambda>(k, n). (k, npc_static n)) the_npcs \<and>
     brigrm g = ''brig'' \<and> cmdrm g = ''command''"

definition items_in :: "Game \<Rightarrow> string \<Rightarrow> string list" where
  "items_in g rid = (case map_of (rooms g) rid of None \<Rightarrow> [] | Some r \<Rightarrow> room_items r)"

definition npcs_in :: "Game \<Rightarrow> string \<Rightarrow> string list" where
  "npcs_in g rid = (case map_of (rooms g) rid of None \<Rightarrow> [] | Some r \<Rightarrow> room_npcs r)"

definition is_arrested :: "Game \<Rightarrow> string \<Rightarrow> bool" where
  "is_arrested g nid = (case map_of (npcs g) nid of None \<Rightarrow> False | Some n \<Rightarrow> arrested n)"

definition all_items :: "Game \<Rightarrow> string list" where
  "all_items g = inv_list g @ concat (map (\<lambda>kr. room_items (snd kr)) (rooms g))"

definition shape :: "Game \<Rightarrow> bool" where
  "shape g \<longleftrightarrow>
     same_world g \<and>
     player_room g \<in> set (keys the_rooms) \<and>
     killer_id g \<in> set (keys the_npcs) \<and>
     killer_id g \<in> set (keys (killer_evidence g)) \<and>
     distinct (all_items g) \<and>
     set (all_items g) \<subseteq> set (keys the_items) \<and>
     ''codes_token'' \<notin> set (inv_list g) \<and>
     (\<forall>kr \<in> set (rooms g). ''codes_token'' \<in> set (room_items (snd kr)) \<longrightarrow> fst kr = ''brig'')"

definition all_seen :: "Game \<Rightarrow> string list" where
  "all_seen g = concat (map (\<lambda>kr. room_npcs (snd kr)) (rooms g))"

definition seen_free :: "Game \<Rightarrow> bool" where
  "seen_free g \<longleftrightarrow>
     (\<forall>nid \<in> set (all_seen g). nid \<in> set (keys the_npcs) \<and> \<not> is_arrested g nid)"

definition token_rule :: "Game \<Rightarrow> bool" where
  "token_rule g \<longleftrightarrow>
     (''codes_token'' \<in> set (items_in g ''brig'') \<longleftrightarrow> is_arrested g (killer_id g))"

definition sound :: "Game \<Rightarrow> bool" where
  "sound g \<longleftrightarrow> shape g \<and> seen_free g \<and> token_rule g"

lemmas sound_defs = sound_def shape_def seen_free_def token_rule_def

lemma sound_core: "core g' = core g \<Longrightarrow> sound g' = sound g"
  by (simp add: core_def sound_defs same_world_def items_in_def is_arrested_def all_items_def all_seen_def)

lemmas quiet_simps = and_then_def lookup_def current_room_def spend_def say_def final_def Let_def
  truthy_def core_def

lemma quiet_look: "core (final (look g)) = core g"
  unfolding look_def
  by (auto simp: quiet_simps split: option.splits result.splits if_splits
      dest!: lookup_all_raise)

lemma quiet_show_map: "core (final (show_map g)) = core g"
  unfolding show_map_def
  by (auto simp: quiet_simps fold_say split: option.splits result.splits if_splits)

lemma quiet_show_time: "core (final (show_time g)) = core g"
  unfolding show_time_def by (auto simp: quiet_simps)

lemma quiet_inv_show: "core (final (inv_show g)) = core g"
  unfolding inv_show_def
  by (auto simp: quiet_simps split: option.splits result.splits if_splits
      dest!: lookup_all_raise)

lemma quiet_inspect: "core (final (inspect args g)) = core g"
  unfolding inspect_def
  by (auto simp: quiet_simps split: option.splits result.splits if_splits
      dest!: find_item_raise find_npc_raise)

lemma quiet_accuse: "core (final (accuse args g)) = core g"
  unfolding accuse_def
  by (auto simp: quiet_simps split: option.splits result.splits if_splits list.splits
      dest!: lookup_all_raise)

lemma quiet_use_console: "core (final (use_console g)) = core g"
  unfolding use_console_def
  by (auto simp: quiet_simps split: option.splits result.splits if_splits)

lemma static_update:
  "map_of d k = Some v \<Longrightarrow> f v' = f v \<Longrightarrow>
     map (\<lambda>(k, x). (k, f x)) (AList.update k v' d) = map (\<lambda>(k, x). (k, f x)) d"
  by (induction d) (auto split: if_splits)

lemma world_keys:
  assumes "same_world g"
  shows "map fst (rooms g) = map fst the_rooms" and "map fst (npcs g) = map fst the_npcs"
proof -
  have "map fst (map (\<lambda>(k, r). (k, room_static r)) (rooms g)) = map fst (rooms g)" by auto
  moreover have "map fst (map (\<lambda>(k, r). (k, room_static r)) the_rooms) = map fst the_rooms" by auto
  ultimately show "map fst (rooms g) = map fst the_rooms"
    using assms by (simp only: same_world_def)
  have "map fst (map (\<lambda>(k, r). (k, npc_static r)) (npcs g)) = map fst (npcs g)" by auto
  moreover have "map fst (map (\<lambda>(k, r). (k, npc_static r)) the_npcs) = map fst the_npcs" by auto
  ultimately show "map fst (npcs g) = map fst the_npcs"
    using assms by (simp only: same_world_def)
qed

lemma distinct_the_keys: "distinct (map fst the_rooms)" "distinct (map fst the_npcs)"
  by (simp_all add: the_rooms_def the_npcs_def)

lemma the_room_ids: "\<forall>kr \<in> set the_rooms. room_id (snd kr) = fst kr"
  by (simp add: the_rooms_def)

lemma world_room_id:
  assumes "same_world g" "(k, r) \<in> set (rooms g)"
  shows "room_id r = k" and "k \<in> set (keys the_rooms)"
proof -
  from assms(2) have "(k, room_static r) \<in> set (map (\<lambda>(k, r). (k, room_static r)) (rooms g))"
    by force
  with assms(1) have "(k, room_static r) \<in> set (map (\<lambda>(k, r). (k, room_static r)) the_rooms)"
    by (simp only: same_world_def)
  then obtain r0 where r0: "(k, r0) \<in> set the_rooms" "room_static r0 = room_static r" by auto
  from r0(2) have "room_id r0 = room_id r"
    by (metis Room.select_convs(1) Room.surjective Room.update_convs(5,6) room_static_def)
  with r0(1) the_room_ids show "room_id r = k" by force
  from r0(1) show "k \<in> set (keys the_rooms)" by (force simp: keys_def)
qed

lemma rooms_update:
  assumes "map_of d p = Some r"
  shows "\<exists>xs ys. d = xs @ (p, r) # ys \<and> p \<notin> fst ` set xs \<and>
           (\<forall>r'. AList.update p r' d = xs @ (p, r') # ys)"
proof -
  from map_of_split [OF assms] obtain xs ys
    where d: "d = xs @ (p, r) # ys" and p: "p \<notin> fst ` set xs" by blast
  have "AList.update p r' d = xs @ (p, r') # ys" for r'
    using d p by (simp add: update_split)
  with d p show ?thesis by blast
qed

lemma shape_take:
  assumes "shape g" "map_of (rooms g) p = Some r" "iid \<in> set (room_items r)"
    "iid \<noteq> ''codes_token''"
  shows "shape (g\<lparr>rooms := AList.update p (r\<lparr>room_items := remove1 iid (room_items r)\<rparr>) (rooms g),
                  inv_list := inv_list g @ [iid]\<rparr>)"
proof -
  from rooms_update [OF assms(2)] obtain xs ys where d: "rooms g = xs @ (p, r) # ys"
    and nk: "p \<notin> fst ` set xs"
    and u: "\<And>r'. AList.update p r' (rooms g) = xs @ (p, r') # ys"
    by blast
  have st: "map (\<lambda>(k, r). (k, room_static r))
              (AList.update p (r\<lparr>room_items := remove1 iid (room_items r)\<rparr>) (rooms g)) =
            map (\<lambda>(k, r). (k, room_static r)) (rooms g)"
    by (rule static_update [OF assms(2)]) (simp add: room_static_def)
  from assms(1) have "same_world g" by (simp add: shape_def)
  with st have "same_world (g\<lparr>rooms := AList.update p (r\<lparr>room_items := remove1 iid (room_items r)\<rparr>) (rooms g),
                  inv_list := inv_list g @ [iid]\<rparr>)"
    by (simp add: same_world_def)
  moreover from assms(1,3,4) have "distinct (inv_list g @ [iid] @ concat (map (\<lambda>kr. room_items (snd kr)) xs) @
      remove1 iid (room_items r) @ concat (map (\<lambda>kr. room_items (snd kr)) ys))"
    by (auto simp: shape_def all_items_def d)
  moreover from assms(1,3) have "set (inv_list g @ [iid] @ concat (map (\<lambda>kr. room_items (snd kr)) xs) @
      remove1 iid (room_items r) @ concat (map (\<lambda>kr. room_items (snd kr)) ys)) \<subseteq> set (keys the_items)"
    by (auto simp: shape_def all_items_def d dest: notin_set_remove1)
  moreover from assms(1) have "\<forall>kr \<in> set (xs @ (p, r\<lparr>room_items := remove1 iid (room_items r)\<rparr>) # ys).
      ''codes_token'' \<in> set (room_items (snd kr)) \<longrightarrow> fst kr = ''brig''"
    by (auto simp: shape_def d dest: notin_set_remove1)
  ultimately show ?thesis
    using assms(1,4) by (simp add: shape_def all_items_def u)
qed

lemma shape_drop:
  assumes "shape g" "map_of (rooms g) p = Some r" "iid \<in> set (inv_list g)"
  shows "shape (g\<lparr>inv_list := remove1 iid (inv_list g),
                  rooms := AList.update p (r\<lparr>room_items := room_items r @ [iid]\<rparr>) (rooms g)\<rparr>)"
proof -
  from rooms_update [OF assms(2)] obtain xs ys where d: "rooms g = xs @ (p, r) # ys"
    and nk: "p \<notin> fst ` set xs"
    and u: "\<And>r'. AList.update p r' (rooms g) = xs @ (p, r') # ys"
    by blast
  have st: "map (\<lambda>(k, r). (k, room_static r))
              (AList.update p (r\<lparr>room_items := room_items r @ [iid]\<rparr>) (rooms g)) =
            map (\<lambda>(k, r). (k, room_static r)) (rooms g)"
    by (rule static_update [OF assms(2)]) (simp add: room_static_def)
  from assms(1) have "same_world g" by (simp add: shape_def)
  with st have "same_world (g\<lparr>inv_list := remove1 iid (inv_list g),
                  rooms := AList.update p (r\<lparr>room_items := room_items r @ [iid]\<rparr>) (rooms g)\<rparr>)"
    by (simp add: same_world_def)
  moreover from assms(1,3) have "distinct (remove1 iid (inv_list g) @ concat (map (\<lambda>kr. room_items (snd kr)) xs) @
      (room_items r @ [iid]) @ concat (map (\<lambda>kr. room_items (snd kr)) ys))"
    by (auto simp: shape_def all_items_def d dest: notin_set_remove1)
  moreover from assms(1,3) have "set (remove1 iid (inv_list g) @ concat (map (\<lambda>kr. room_items (snd kr)) xs) @
      (room_items r @ [iid]) @ concat (map (\<lambda>kr. room_items (snd kr)) ys)) \<subseteq> set (keys the_items)"
    by (auto simp: shape_def all_items_def d dest: notin_set_remove1)
  moreover from assms(1,3) have "iid \<noteq> ''codes_token''" by (auto simp: shape_def)
  moreover from assms(1) calculation(4) have "\<forall>kr \<in> set (xs @ (p, r\<lparr>room_items := room_items r @ [iid]\<rparr>) # ys).
      ''codes_token'' \<in> set (room_items (snd kr)) \<longrightarrow> fst kr = ''brig''"
    by (auto simp: shape_def d)
  ultimately show ?thesis
    using assms(1) by (auto simp: shape_def all_items_def u dest: notin_set_remove1)
qed

lemma all_seen_update:
  "map_of d p = Some r \<Longrightarrow> room_npcs r' = room_npcs r \<Longrightarrow>
     concat (map (\<lambda>kr. room_npcs (snd kr)) (AList.update p r' d)) =
     concat (map (\<lambda>kr. room_npcs (snd kr)) d)"
  by (induction d) (auto split: if_splits)

lemma items_in_update:
  "items_in (g\<lparr>rooms := AList.update p r' (rooms g)\<rparr>) rid =
     (if rid = p then room_items r' else items_in g rid)"
  by (simp add: items_in_def AList.update_conv')

lemma is_arrested_rooms [simp]: "is_arrested (g\<lparr>rooms := rs\<rparr>) = is_arrested g"
  by (simp add: is_arrested_def fun_eq_iff)

lemma is_arrested_inv [simp]: "is_arrested (g\<lparr>inv_list := xs\<rparr>) = is_arrested g"
  by (simp add: is_arrested_def fun_eq_iff)

lemma sound_take:
  assumes "sound g" "map_of (rooms g) p = Some r" "iid \<in> set (room_items r)"
    "iid \<noteq> ''codes_token''"
  shows "sound (g\<lparr>rooms := AList.update p (r\<lparr>room_items := remove1 iid (room_items r)\<rparr>) (rooms g),
                  inv_list := inv_list g @ [iid]\<rparr>)"
proof -
  let ?g' = "g\<lparr>rooms := AList.update p (r\<lparr>room_items := remove1 iid (room_items r)\<rparr>) (rooms g),
                  inv_list := inv_list g @ [iid]\<rparr>"
  from assms have "shape ?g'" by (simp add: sound_def shape_take)
  moreover have "all_seen ?g' = all_seen g"
    using all_seen_update [OF assms(2), of "r\<lparr>room_items := remove1 iid (room_items r)\<rparr>"]
    by (simp add: all_seen_def)
  with assms(1) have "seen_free ?g'" by (simp add: sound_def seen_free_def)
  moreover have "(''codes_token'' \<in> set (items_in ?g' ''brig'')) = (''codes_token'' \<in> set (items_in g ''brig''))"
    using assms(2,4) by (auto simp: items_in_def AList.update_conv' dest: notin_set_remove1)
  with assms(1) have "token_rule ?g'" by (simp add: sound_def token_rule_def)
  ultimately show ?thesis by (simp add: sound_def)
qed

lemma sound_drop:
  assumes "sound g" "map_of (rooms g) p = Some r" "iid \<in> set (inv_list g)"
  shows "sound (g\<lparr>inv_list := remove1 iid (inv_list g),
                  rooms := AList.update p (r\<lparr>room_items := room_items r @ [iid]\<rparr>) (rooms g)\<rparr>)"
proof -
  let ?g' = "g\<lparr>inv_list := remove1 iid (inv_list g),
                  rooms := AList.update p (r\<lparr>room_items := room_items r @ [iid]\<rparr>) (rooms g)\<rparr>"
  from assms have "shape ?g'" by (simp add: sound_def shape_drop)
  moreover have "all_seen ?g' = all_seen g"
    using all_seen_update [OF assms(2), of "r\<lparr>room_items := room_items r @ [iid]\<rparr>"]
    by (simp add: all_seen_def)
  with assms(1) have "seen_free ?g'" by (simp add: sound_def seen_free_def)
  moreover from assms(1,3) have "iid \<noteq> ''codes_token''" by (auto simp: sound_def shape_def)
  then have "(''codes_token'' \<in> set (items_in ?g' ''brig'')) = (''codes_token'' \<in> set (items_in g ''brig''))"
    using assms(2) by (auto simp: items_in_def AList.update_conv')
  with assms(1) have "token_rule ?g'" by (simp add: sound_def token_rule_def)
  ultimately show ?thesis by (simp add: sound_def)
qed

lemma is_arrested_set_npc:
  "is_arrested (g\<lparr>npcs := AList.update nid n' (npcs g)\<rparr>) x =
     (if x = nid then arrested n' else is_arrested g x)"
  by (simp add: is_arrested_def AList.update_conv')

lemma shape_set_npc:
  assumes "shape g" "map_of (npcs g) nid = Some n" "npc_static n' = npc_static n"
  shows "shape (g\<lparr>npcs := AList.update nid n' (npcs g)\<rparr>)"
proof -
  have "map (\<lambda>(k, n). (k, npc_static n)) (AList.update nid n' (npcs g)) =
        map (\<lambda>(k, n). (k, npc_static n)) (npcs g)"
    by (rule static_update [OF assms(2,3)])
  with assms(1) show ?thesis
    by (simp add: shape_def same_world_def all_items_def)
qed

lemma sound_talk:
  assumes "sound g" "map_of (npcs g) nid = Some n"
  shows "sound (g\<lparr>npcs := AList.update nid (n\<lparr>cooperative := True\<rparr>) (npcs g)\<rparr>)"
proof -
  let ?g' = "g\<lparr>npcs := AList.update nid (n\<lparr>cooperative := True\<rparr>) (npcs g)\<rparr>"
  have a: "is_arrested ?g' x = is_arrested g x" for x
    using assms(2) by (auto simp: is_arrested_def AList.update_conv')
  from assms have "shape ?g'"
    by (simp add: sound_def shape_set_npc npc_static_def)
  with assms(1) a show ?thesis
    by (simp add: sound_def seen_free_def token_rule_def all_seen_def items_in_def)
qed

subsection \<open>Rebuilding the visible lists\<close>

lemma sync_same_world [simp]: "same_world (sync_npcs_in_room g) = same_world g"
proof -
  have "map (\<lambda>(k, r). (k, room_static r)) (rooms (sync_npcs_in_room g)) =
        map (\<lambda>(k, r). (k, room_static r)) (rooms g)"
    by (auto simp: sync_npcs_in_room_def room_static_def)
  moreover have "items (sync_npcs_in_room g) = items g" "npcs (sync_npcs_in_room g) = npcs g"
    "brigrm (sync_npcs_in_room g) = brigrm g" "cmdrm (sync_npcs_in_room g) = cmdrm g"
    by (simp_all add: sync_npcs_in_room_def)
  ultimately show ?thesis by (simp add: same_world_def)
qed

lemma sync_all_items [simp]: "all_items (sync_npcs_in_room g) = all_items g"
  by (simp add: all_items_def sync_npcs_in_room_def case_prod_beta comp_def)

lemma sync_items_in [simp]: "items_in (sync_npcs_in_room g) rid = items_in g rid"
proof -
  have "map_of (map (\<lambda>(k, r). (k, f k r)) d) rid = map_option (f rid) (map_of d rid)"
    for f :: "string \<Rightarrow> Room \<Rightarrow> Room" and d
    by (induction d) auto
  then show ?thesis
    by (simp add: items_in_def sync_npcs_in_room_def split: option.splits)
qed

lemma sync_is_arrested [simp]: "is_arrested (sync_npcs_in_room g) = is_arrested g"
  by (simp add: is_arrested_def sync_npcs_in_room_def fun_eq_iff)

lemma sync_shape [simp]: "shape (sync_npcs_in_room g) = shape g"
proof -
  have "(\<forall>kr \<in> set (rooms (sync_npcs_in_room g)).
           ''codes_token'' \<in> set (room_items (snd kr)) \<longrightarrow> fst kr = ''brig'') =
        (\<forall>kr \<in> set (rooms g). ''codes_token'' \<in> set (room_items (snd kr)) \<longrightarrow> fst kr = ''brig'')"
    by (auto simp: sync_npcs_in_room_def)
  moreover have "player_room (sync_npcs_in_room g) = player_room g"
    "killer_id (sync_npcs_in_room g) = killer_id g"
    "killer_evidence (sync_npcs_in_room g) = killer_evidence g"
    "inv_list (sync_npcs_in_room g) = inv_list g"
    by (simp_all add: sync_npcs_in_room_def)
  ultimately show ?thesis by (simp add: shape_def)
qed

lemma sync_token_rule [simp]: "token_rule (sync_npcs_in_room g) = token_rule g"
  by (simp add: token_rule_def) (simp add: sync_npcs_in_room_def)

lemma sync_seen_free:
  assumes "same_world g"
  shows "seen_free (sync_npcs_in_room g)"
proof -
  from world_keys(2) [OF assms] distinct_the_keys(2)
  have k: "map fst (npcs g) = map fst the_npcs" and d: "distinct (map fst (npcs g))" by simp_all
  have "nid \<in> set (keys the_npcs) \<and> \<not> is_arrested g nid"
    if "nid \<in> set (all_seen (sync_npcs_in_room g))" for nid
  proof -
    from that obtain n where n: "(nid, n) \<in> set (npcs g)" "\<not> arrested n"
      by (auto simp: all_seen_def sync_npcs_in_room_def)
    from n(1) d have "map_of (npcs g) nid = Some n" by simp
    with n(2) have "\<not> is_arrested g nid" by (simp add: is_arrested_def)
    moreover from n(1) have "nid \<in> set (map fst (npcs g))" by force
    with k have "nid \<in> set (keys the_npcs)" by (simp add: keys_def)
    ultimately show ?thesis by simp
  qed
  then show ?thesis by (simp add: seen_free_def)
qed

lemma find_item_Some:
  "find_item name pool g = Ok (Some i) \<Longrightarrow>
     i \<in> set pool \<and> (\<exists>it. map_of (items g) i = Some it \<and> (lower (item_name it) = name \<or> i = name))"
  by (induction pool) (auto simp: and_then_def lookup_def split: option.splits if_splits)

lemma find_npc_Some:
  "find_npc name pool g = Ok (Some i) \<Longrightarrow>
     i \<in> set pool \<and> (\<exists>n. map_of (npcs g) i = Some n \<and> (lower (npc_name n) = name \<or> i = name))"
  by (induction pool) (auto simp: and_then_def lookup_def split: option.splits if_splits)

lemma truthy_Some: "truthy v = Some s \<Longrightarrow> v = Some s \<and> s \<noteq> []"
  by (auto simp: truthy_def split: option.splits if_splits)

lemma core_spend: "core (final (spend m g)) = core g"
  by (simp add: spend_def Let_def final_def core_def say_def)

lemma core_say: "core (say m g) = core g"
  by (simp add: core_def say_def)

lemma core_and_then_spend:
  "core (final (and_then r (spend m))) = core (final r)"
  by (cases r) (simp_all add: and_then_def core_spend, simp add: final_def)

definition jailed :: "string \<Rightarrow> NPC \<Rightarrow> Game \<Rightarrow> Game" where
  "jailed nid n g =
     sync_npcs_in_room (set_npc nid (n\<lparr>arrested := True, npc_room := brigrm g\<rparr>) g)"

definition reveal :: "Game \<Rightarrow> Room \<Rightarrow> Game" where
  "reveal g b =
     g\<lparr>rooms := AList.update (brigrm g) (b\<lparr>room_items := room_items b @ [''codes_token'']\<rparr>)
                  (rooms g)\<rparr>"

lemma take_core:
  "core (final (take_cmd args g)) = core g \<or>
   (\<exists>r iid it. map_of (rooms g) (player_room g) = Some r \<and>
      find_item (lower (join_sp args)) (room_items r) g = Ok (Some iid) \<and>
      map_of (items g) iid = Some it \<and> portable it \<and>
      core (final (take_cmd args g)) =
        core (g\<lparr>rooms := AList.update (player_room g)
                   (r\<lparr>room_items := remove1 iid (room_items r)\<rparr>) (rooms g),
                 inv_list := inv_list g @ [iid]\<rparr>))"
  unfolding take_cmd_def
  by (auto simp: quiet_simps split: option.splits result.splits if_splits
      dest!: find_item_raise truthy_Some)

lemma drop_core:
  "core (final (drop_cmd args g)) = core g \<or>
   (\<exists>iid. find_item (lower (join_sp args)) (inv_list g) g = Ok (Some iid) \<and>
      (map_of (rooms g) (player_room g) = None \<and>
       core (final (drop_cmd args g)) = core (g\<lparr>inv_list := remove1 iid (inv_list g)\<rparr>) \<or>
       (\<exists>r. map_of (rooms g) (player_room g) = Some r \<and>
        core (final (drop_cmd args g)) =
          core (g\<lparr>inv_list := remove1 iid (inv_list g),
                   rooms := AList.update (player_room g)
                     (r\<lparr>room_items := room_items r @ [iid]\<rparr>) (rooms g)\<rparr>))))"
  unfolding drop_cmd_def
  by (auto simp: quiet_simps split: option.splits result.splits if_splits
      dest!: find_item_raise truthy_Some)

lemma talk_core:
  "core (final (talk args g)) = core g \<or>
   (\<exists>nid n. map_of (npcs g) nid = Some n \<and>
      core (final (talk args g)) =
        core (g\<lparr>npcs := AList.update nid (n\<lparr>cooperative := True\<rparr>) (npcs g)\<rparr>))"
  unfolding talk_def
  by (auto simp: quiet_simps set_npc_def random_below_quarter_def
      split: option.splits result.splits if_splits
      dest!: find_npc_raise truthy_Some)

lemma move_core:
  "core (final (move d g)) = core g \<or>
   (\<exists>target. target \<in> set (vals (rooms g)) \<and>
      core (final (move d g)) = core (sync_npcs_in_room (g\<lparr>player_room := room_id target\<rparr>)))"
proof (cases "map_of DIRS (lower d)")
  case None
  then show ?thesis by (simp add: move_def final_def core_say)
next
  case (Some dxy)
  obtain dx dy where dxy: "dxy = (dx, dy)" by (cases dxy)
  show ?thesis
  proof (cases "map_of (rooms g) (player_room g)")
    case None
    with Some dxy show ?thesis
      by (simp add: move_def final_def and_then_def current_room_def lookup_def)
  next
    case r: (Some r)
    show ?thesis
    proof (cases "room_at_xy (room_x r + dx) (room_y r + dy) g")
      case None
      with Some dxy r show ?thesis
        by (simp add: move_def final_def and_then_def current_room_def lookup_def core_say)
    next
      case t: (Some target)
      then have "target \<in> set (vals (rooms g))"
        by (auto simp: room_at_xy_def find_Some_iff)
      moreover have "move d g =
          and_then (look (sync_npcs_in_room (g\<lparr>player_room := room_id target\<rparr>))) (spend 2)"
        using Some dxy r t by (simp add: move_def and_then_def current_room_def lookup_def)
      then have "core (final (move d g)) =
          core (sync_npcs_in_room (g\<lparr>player_room := room_id target\<rparr>))"
        by (simp add: core_and_then_spend quiet_look)
      ultimately show ?thesis by blast
    qed
  qed
qed

definition arrest_state :: "string \<Rightarrow> NPC \<Rightarrow> Game \<Rightarrow> Game" where
  "arrest_state nid n g =
     (let g1 = jailed nid n g in
      if nid = killer_id g1 then
        (case map_of (rooms g1) (brigrm g1) of
           None \<Rightarrow> g1
         | Some b \<Rightarrow> if ''codes_token'' \<notin> set (room_items b) then reveal g1 b else g1)
      else g1)"

lemma arrest_core:
  "core (final (arrest args g)) = core g \<or>
   (\<exists>r nid n. map_of (rooms g) (player_room g) = Some r \<and>
      find_npc (lower (join_sp args)) (room_npcs r) g = Ok (Some nid) \<and>
      map_of (npcs g) nid = Some n \<and> \<not> arrested n \<and> ''cuffs'' \<in> set (inv_list g) \<and>
      core (final (arrest args g)) = core (arrest_state nid n g))"
  unfolding arrest_def
  by (auto simp: quiet_simps arrest_state_def jailed_def reveal_def
      split: option.splits result.splits if_splits
      dest!: find_npc_raise truthy_Some)

lemma distinct_room_keys: "same_world g \<Longrightarrow> distinct (map fst (rooms g))"
  using world_keys(1) distinct_the_keys(1) by simp

lemma token_known: "''codes_token'' \<in> set (keys the_items)"
  by (simp add: keys_def the_items_def)

lemma shape_reveal:
  assumes "shape g" "map_of (rooms g) ''brig'' = Some b" "''codes_token'' \<notin> set (room_items b)"
  shows "shape (reveal g b)"
proof -
  from assms(1) have sw: "same_world g" by (simp add: shape_def)
  then have br: "brigrm g = ''brig''" by (simp add: same_world_def)
  from rooms_update [OF assms(2)] obtain xs ys where d: "rooms g = xs @ (''brig'', b) # ys"
    and nk: "''brig'' \<notin> fst ` set xs"
    and u: "\<And>r'. AList.update ''brig'' r' (rooms g) = xs @ (''brig'', r') # ys"
    by blast
  from distinct_room_keys [OF sw] d have nk2: "''brig'' \<notin> fst ` set ys" by auto
  from assms(1) d have only: "\<forall>kr \<in> set xs \<union> set ys.
      ''codes_token'' \<in> set (room_items (snd kr)) \<longrightarrow> fst kr = ''brig''"
    by (simp add: shape_def)
  with nk nk2 have no: "\<forall>kr \<in> set xs \<union> set ys. ''codes_token'' \<notin> set (room_items (snd kr))"
    by force
  have st: "map (\<lambda>(k, r). (k, room_static r))
              (AList.update ''brig'' (b\<lparr>room_items := room_items b @ [''codes_token'']\<rparr>) (rooms g)) =
            map (\<lambda>(k, r). (k, room_static r)) (rooms g)"
    by (rule static_update [OF assms(2)]) (simp add: room_static_def)
  with sw have "same_world (reveal g b)"
    by (simp add: same_world_def reveal_def br)
  moreover from assms(1,3) no have "distinct (inv_list g @ concat (map (\<lambda>kr. room_items (snd kr)) xs) @
      (room_items b @ [''codes_token'']) @ concat (map (\<lambda>kr. room_items (snd kr)) ys))"
    by (auto simp: shape_def all_items_def d)
  moreover from assms(1) token_known have "set (inv_list g @ concat (map (\<lambda>kr. room_items (snd kr)) xs) @
      (room_items b @ [''codes_token'']) @ concat (map (\<lambda>kr. room_items (snd kr)) ys)) \<subseteq> set (keys the_items)"
    by (auto simp: shape_def all_items_def d)
  moreover from only have "\<forall>kr \<in> set (xs @ (''brig'', b\<lparr>room_items := room_items b @ [''codes_token'']\<rparr>) # ys).
      ''codes_token'' \<in> set (room_items (snd kr)) \<longrightarrow> fst kr = ''brig''"
    by auto
  ultimately show ?thesis
    using assms(1) by (simp add: shape_def all_items_def reveal_def br u)
qed

lemma sound_arrest_state:
  assumes "sound g" "map_of (npcs g) nid = Some n"
  shows "sound (arrest_state nid n g)"
proof -
  let ?n' = "n\<lparr>arrested := True, npc_room := brigrm g\<rparr>"
  let ?g0 = "g\<lparr>npcs := AList.update nid ?n' (npcs g)\<rparr>"
  let ?g1 = "jailed nid n g"
  have g1: "?g1 = sync_npcs_in_room ?g0" by (simp add: jailed_def set_npc_def)
  from assms have s0: "shape ?g0"
    by (simp add: sound_def shape_set_npc npc_static_def)
  then have s1: "shape ?g1" by (simp add: g1)
  from s0 have "same_world ?g0" by (simp add: shape_def)
  then have f1: "seen_free ?g1" unfolding g1 by (rule sync_seen_free)
  have a1: "is_arrested ?g1 x = (if x = nid then True else is_arrested g x)" for x
    by (simp add: g1 is_arrested_set_npc)
  have i1: "items_in ?g1 rid = items_in g rid" for rid
    by (simp add: g1) (simp add: items_in_def)
  have k1: "killer_id ?g1 = killer_id g" "brigrm ?g1 = ''brig''"
    using s1 by (simp_all add: g1 sync_npcs_in_room_def shape_def same_world_def)
  show ?thesis
  proof (cases "nid = killer_id g")
    case False
    from assms(1) have "token_rule ?g1"
      using False by (simp add: sound_def token_rule_def a1 i1 k1)
    with s1 f1 False show ?thesis
      by (simp add: arrest_state_def Let_def k1 sound_def)
  next
    case True
    then have kn: "killer_id g = nid" by simp
    show ?thesis
    proof (cases "map_of (rooms ?g1) ''brig''")
      case None
      from s1 have "map fst (rooms ?g1) = map fst the_rooms"
        by (simp add: shape_def world_keys(1))
      moreover have "''brig'' \<in> set (map fst the_rooms)"
        by (simp add: the_rooms_def)
      ultimately have "''brig'' \<in> fst ` set (rooms ?g1)"
        by (metis image_set)
      with None show ?thesis by (simp add: map_of_eq_None_iff)
    next
      case (Some b)
      show ?thesis
      proof (cases "''codes_token'' \<in> set (room_items b)")
        case t: True
        with Some have "token_rule ?g1"
          by (simp add: token_rule_def a1 k1 kn items_in_def)
        with s1 f1 Some t show ?thesis
          by (simp add: arrest_state_def Let_def k1 kn sound_def)
      next
        case f: False
        from shape_reveal [OF s1 Some f] have s2: "shape (reveal ?g1 b)" .
        have "all_seen (reveal ?g1 b) = all_seen ?g1"
          using all_seen_update [OF Some, of "b\<lparr>room_items := room_items b @ [''codes_token'']\<rparr>"]
          by (simp add: all_seen_def reveal_def k1)
        moreover have ar: "is_arrested (reveal ?g1 b) = is_arrested ?g1"
          by (simp add: reveal_def)
        ultimately have f2: "seen_free (reveal ?g1 b)"
          using f1 by (simp add: seen_free_def)
        have "killer_id (reveal ?g1 b) = nid"
          by (simp add: reveal_def k1 kn)
        moreover have "''codes_token'' \<in> set (items_in (reveal ?g1 b) ''brig'')"
          by (simp add: reveal_def k1 items_in_update)
        ultimately have "token_rule (reveal ?g1 b)"
          by (simp add: token_rule_def ar a1 kn)
        with s2 f2 Some f show ?thesis
          by (simp add: arrest_state_def Let_def k1 kn sound_def)
      qed
    qed
  qed
qed

subsection \<open>Loading what was saved\<close>

lemma room_static_restore:
  "room_static r = room_static rs \<Longrightarrow>
     r\<lparr>room_items := room_items rs, room_npcs := room_npcs rs\<rparr> = rs"
  by (cases r, cases rs) (simp add: room_static_def)

lemma npc_static_restore:
  "npc_static n = npc_static ns \<Longrightarrow>
     n\<lparr>npc_room := npc_room ns, arrested := arrested ns, cooperative := cooperative ns\<rparr> = ns"
  by (cases n, cases ns) (simp add: npc_static_def)

lemma load_rooms_restore:
  "map (\<lambda>(k, r). (k, room_static r)) todo = map (\<lambda>(k, r). (k, room_static r)) saved \<Longrightarrow>
   distinct (map fst (done @ todo)) \<Longrightarrow> rooms g = done @ todo \<Longrightarrow>
     load_rooms (map (\<lambda>(rid, r). (rid, room_items r, room_npcs r)) saved) g =
       Ok (g\<lparr>rooms := done @ saved\<rparr>)"
proof (induction saved arbitrary: todo "done" g)
  case Nil
  then show ?case by simp
next
  case (Cons krs rest)
  obtain k rs where krs: "krs = (k, rs)" by (cases krs)
  from Cons.prems(1) krs obtain r t where todo: "todo = (k, r) # t"
    and st: "room_static r = room_static rs"
    and tl: "map (\<lambda>(k, r). (k, room_static r)) t = map (\<lambda>(k, r). (k, room_static r)) rest"
    by (cases todo) auto
  from Cons.prems(2) todo have nk: "k \<notin> fst ` set done" by auto
  have look: "map_of (rooms g) k = Some r"
    using map_of_skip [OF nk, of "(k, r) # t"] Cons.prems(3) todo by simp
  have upd: "AList.update k (r\<lparr>room_items := room_items rs, room_npcs := room_npcs rs\<rparr>) (rooms g) =
             (done @ [(k, rs)]) @ t"
    using Cons.prems(3) todo nk by (simp add: update_split room_static_restore [OF st])
  let ?g' = "g\<lparr>rooms := (done @ [(k, rs)]) @ t\<rparr>"
  from Cons.prems(2) todo have "distinct (map fst ((done @ [(k, rs)]) @ t))" by simp
  from Cons.IH [OF tl this, of ?g']
  have "load_rooms (map (\<lambda>(rid, r). (rid, room_items r, room_npcs r)) rest) ?g' =
          Ok (g\<lparr>rooms := done @ (k, rs) # rest\<rparr>)"
    by simp
  then show ?case
    using look upd by (simp add: krs and_then_def lookup_def)
qed

lemma load_npcs_restore:
  "map (\<lambda>(k, n). (k, npc_static n)) todo = map (\<lambda>(k, n). (k, npc_static n)) saved \<Longrightarrow>
   distinct (map fst (done @ todo)) \<Longrightarrow> npcs g = done @ todo \<Longrightarrow>
     load_npcs (map (\<lambda>(nid, n). (nid, npc_room n, arrested n, cooperative n)) saved) g =
       Ok (g\<lparr>npcs := done @ saved\<rparr>)"
proof (induction saved arbitrary: todo "done" g)
  case Nil
  then show ?case by simp
next
  case (Cons kns rest)
  obtain k ns where kns: "kns = (k, ns)" by (cases kns)
  from Cons.prems(1) kns obtain n t where todo: "todo = (k, n) # t"
    and st: "npc_static n = npc_static ns"
    and tl: "map (\<lambda>(k, n). (k, npc_static n)) t = map (\<lambda>(k, n). (k, npc_static n)) rest"
    by (cases todo) auto
  from Cons.prems(2) todo have nk: "k \<notin> fst ` set done" by auto
  have look: "map_of (npcs g) k = Some n"
    using map_of_skip [OF nk, of "(k, n) # t"] Cons.prems(3) todo by simp
  have upd: "AList.update k (n\<lparr>npc_room := npc_room ns, arrested := arrested ns,
                cooperative := cooperative ns\<rparr>) (npcs g) = (done @ [(k, ns)]) @ t"
    using Cons.prems(3) todo nk by (simp add: update_split npc_static_restore [OF st])
  let ?g' = "g\<lparr>npcs := (done @ [(k, ns)]) @ t\<rparr>"
  from Cons.prems(2) todo have "distinct (map fst ((done @ [(k, ns)]) @ t))" by simp
  from Cons.IH [OF tl this, of ?g']
  have "load_npcs (map (\<lambda>(nid, n). (nid, npc_room n, arrested n, cooperative n)) rest) ?g' =
          Ok (g\<lparr>npcs := done @ (k, ns) # rest\<rparr>)"
    by simp
  then show ?case
    using look upd by (simp add: kns and_then_def lookup_def)
qed

lemma load_dump:
  assumes "same_world g" "same_world gs"
  shows "load g (Some (dump gs)) =
           Ok (say (Loop Loaded)
                 (g\<lparr>time := time gs, player_room := player_room gs, inv_list := inv_list gs,
                    rooms := rooms gs, npcs := npcs gs, killer_id := killer_id gs,
                    killer_evidence := killer_evidence gs\<rparr>))"
proof -
  let ?g0 = "g\<lparr>time := time gs, player_room := player_room gs, inv_list := inv_list gs\<rparr>"
  from assms have r: "map (\<lambda>(k, r). (k, room_static r)) (rooms g) =
      map (\<lambda>(k, r). (k, room_static r)) (rooms gs)"
    and n: "map (\<lambda>(k, n). (k, npc_static n)) (npcs g) =
      map (\<lambda>(k, n). (k, npc_static n)) (npcs gs)"
    by (simp_all add: same_world_def)
  from world_keys [OF assms(1)] distinct_the_keys
  have d: "distinct (map fst ([] @ rooms g))" "distinct (map fst ([] @ npcs g))" by simp_all
  have 1: "load_rooms (d_rooms (dump gs)) ?g0 = Ok (?g0\<lparr>rooms := rooms gs\<rparr>)"
    using load_rooms_restore [OF r d(1), of ?g0] by (simp add: dump_def)
  have 2: "load_npcs (d_npcs (dump gs)) (?g0\<lparr>rooms := rooms gs\<rparr>) =
             Ok (?g0\<lparr>rooms := rooms gs, npcs := npcs gs\<rparr>)"
    using load_npcs_restore [OF n d(2), of "?g0\<lparr>rooms := rooms gs\<rparr>"] by (simp add: dump_def)
  have 3: "d_time (dump gs) = time gs" "d_player_room (dump gs) = player_room gs"
    "d_inv (dump gs) = inv_list gs" "d_killer (dump gs) = killer_id gs"
    "d_killer_evidence (dump gs) = killer_evidence gs"
    by (simp_all add: dump_def)
  show ?thesis
    by (simp add: load_def 1 2 3 and_then_def)
qed

lemma token_fixed: "map_of the_items ''codes_token'' = Some it \<Longrightarrow> \<not> portable it"
  by (auto simp: the_items_def)

lemma sound_player_known: "sound g \<Longrightarrow> \<exists>r. map_of (rooms g) (player_room g) = Some r"
proof -
  assume s: "sound g"
  then have "same_world g" "player_room g \<in> set (keys the_rooms)"
    by (simp_all add: sound_def shape_def)
  with world_keys(1) [of g] have "player_room g \<in> fst ` set (rooms g)"
    by (metis image_set keys_def)
  then show ?thesis
    by (cases "map_of (rooms g) (player_room g)") (auto simp: map_of_eq_None_iff)
qed

lemma sound_coreI:
  assumes "core g' = core g" "sound g"
  shows "sound g'"
  using sound_core [OF assms(1)] assms(2) by simp

lemma sound_final_take: "sound g \<Longrightarrow> sound (final (take_cmd args g))"
proof -
  assume s: "sound g"
  from take_core [of args g] show ?thesis
  proof (elim disjE exE conjE)
    assume "core (final (take_cmd args g)) = core g"
    then show ?thesis using s by (rule sound_coreI)
  next
    fix r iid it
    assume r: "map_of (rooms g) (player_room g) = Some r"
      and f: "find_item (lower (join_sp args)) (room_items r) g = Ok (Some iid)"
      and it: "map_of (items g) iid = Some it" "portable it"
      and c: "core (final (take_cmd args g)) =
        core (g\<lparr>rooms := AList.update (player_room g)
                   (r\<lparr>room_items := remove1 iid (room_items r)\<rparr>) (rooms g),
                 inv_list := inv_list g @ [iid]\<rparr>)"
    from s have "items g = the_items" by (simp add: sound_def shape_def same_world_def)
    with it token_fixed [of it] have t: "iid \<noteq> ''codes_token''" by auto
    from find_item_Some [OF f] have "iid \<in> set (room_items r)" by simp
    from sound_take [OF s r this t] show ?thesis by (rule sound_coreI [OF c])
  qed
qed

lemma sound_final_drop: "sound g \<Longrightarrow> sound (final (drop_cmd args g))"
proof -
  assume s: "sound g"
  from sound_player_known [OF s] obtain r0 where r0: "map_of (rooms g) (player_room g) = Some r0"
    by blast
  from drop_core [of args g] show ?thesis
  proof (elim disjE exE conjE)
    assume "core (final (drop_cmd args g)) = core g"
    then show ?thesis using s by (rule sound_coreI)
  next
    fix iid
    assume "map_of (rooms g) (player_room g) = None"
    with r0 show ?thesis by simp
  next
    fix iid r
    assume f: "find_item (lower (join_sp args)) (inv_list g) g = Ok (Some iid)"
      and r: "map_of (rooms g) (player_room g) = Some r"
      and c: "core (final (drop_cmd args g)) =
          core (g\<lparr>inv_list := remove1 iid (inv_list g),
                   rooms := AList.update (player_room g)
                     (r\<lparr>room_items := room_items r @ [iid]\<rparr>) (rooms g)\<rparr>)"
    from find_item_Some [OF f] have "iid \<in> set (inv_list g)" by simp
    from sound_drop [OF s r this] show ?thesis by (rule sound_coreI [OF c])
  qed
qed

lemma sound_final_talk: "sound g \<Longrightarrow> sound (final (talk args g))"
proof -
  assume s: "sound g"
  from talk_core [of args g] show ?thesis
  proof (elim disjE exE conjE)
    assume "core (final (talk args g)) = core g"
    then show ?thesis using s by (rule sound_coreI)
  next
    fix nid n
    assume n: "map_of (npcs g) nid = Some n"
      and c: "core (final (talk args g)) =
        core (g\<lparr>npcs := AList.update nid (n\<lparr>cooperative := True\<rparr>) (npcs g)\<rparr>)"
    from sound_talk [OF s n] show ?thesis by (rule sound_coreI [OF c])
  qed
qed

lemma sound_final_arrest: "sound g \<Longrightarrow> sound (final (arrest args g))"
proof -
  assume s: "sound g"
  from arrest_core [of args g] show ?thesis
  proof (elim disjE exE conjE)
    assume "core (final (arrest args g)) = core g"
    then show ?thesis using s by (rule sound_coreI)
  next
    fix r nid n
    assume n: "map_of (npcs g) nid = Some n"
      and c: "core (final (arrest args g)) = core (arrest_state nid n g)"
    from sound_arrest_state [OF s n] show ?thesis by (rule sound_coreI [OF c])
  qed
qed

lemma sound_final_move: "sound g \<Longrightarrow> sound (final (move d g))"
proof -
  assume s: "sound g"
  from move_core [of d g] show ?thesis
  proof (elim disjE exE conjE)
    assume "core (final (move d g)) = core g"
    then show ?thesis using s by (rule sound_coreI)
  next
    fix target
    assume t: "target \<in> set (vals (rooms g))"
      and c: "core (final (move d g)) = core (sync_npcs_in_room (g\<lparr>player_room := room_id target\<rparr>))"
    from s have sw: "same_world g" by (simp add: sound_def shape_def)
    from t obtain k where "(k, target) \<in> set (rooms g)" by (auto simp: vals_def)
    from world_room_id [OF sw this] have "room_id target \<in> set (keys the_rooms)" by simp
    with s have "shape (g\<lparr>player_room := room_id target\<rparr>)"
      by (simp add: sound_def shape_def same_world_def all_items_def)
    moreover from sw have "same_world (g\<lparr>player_room := room_id target\<rparr>)"
      by (simp add: same_world_def)
    then have "seen_free (sync_npcs_in_room (g\<lparr>player_room := room_id target\<rparr>))"
      by (rule sync_seen_free)
    moreover from s have "token_rule (g\<lparr>player_room := room_id target\<rparr>)"
      by (simp add: sound_def token_rule_def items_in_def is_arrested_def)
    ultimately have "sound (sync_npcs_in_room (g\<lparr>player_room := room_id target\<rparr>))"
      by (simp add: sound_def)
    then show ?thesis by (rule sound_coreI [OF c])
  qed
qed

definition file_ok :: "savefile \<Rightarrow> bool" where
  "file_ok f = (case f of None \<Rightarrow> True | Some d \<Rightarrow> \<exists>gs. sound gs \<and> d = dump gs)"

definition good :: "world \<Rightarrow> bool" where
  "good w = (case w of (g, f) \<Rightarrow> sound g \<and> file_ok f)"

lemma the_world_facts:
  "distinct (concat (map (\<lambda>kr. room_items (snd kr)) the_rooms))"
  "set (concat (map (\<lambda>kr. room_items (snd kr)) the_rooms)) \<subseteq> set (keys the_items)"
  "\<forall>kr \<in> set the_rooms. ''codes_token'' \<notin> set (room_items (snd kr))"
  "concat (map (\<lambda>kr. room_npcs (snd kr)) the_rooms) = []"
  "\<forall>kn \<in> set the_npcs. \<not> arrested (snd kn)"
  "''atrium'' \<in> set (keys the_rooms)"
  "map_of the_rooms ''brig'' = Some \<lparr>room_id = ''brig'', room_name = ''Security Brig'', room_x = 0,
     room_y = 1, room_items = [], room_npcs = [], passable = True\<rparr>"
  by (simp_all add: the_rooms_def the_items_def the_npcs_def keys_def)

lemma sound_fresh:
  assumes "k \<in> set (keys the_npcs)" "set (keys ev) = set (keys the_npcs)"
  shows "sound (fresh r k ev)"
proof -
  have "is_arrested (fresh r k ev) x = False" for x
  proof (cases "map_of the_npcs x")
    case None
    then show ?thesis by (simp add: is_arrested_def fresh_def)
  next
    case (Some n)
    then have "(x, n) \<in> set the_npcs" by (rule map_of_SomeD)
    with the_world_facts(5) have "\<not> arrested n" by force
    with Some show ?thesis by (simp add: is_arrested_def fresh_def)
  qed
  then show ?thesis
    using assms the_world_facts
    by (simp add: sound_defs same_world_def all_items_def all_seen_def items_in_def fresh_def)
qed

lemma sound_start: "start seed = Ok g \<Longrightarrow> sound g"
proof -
  assume s: "start seed = Ok g"
  from start_fresh [of seed] s obtain r k ev
    where g: "g = (fresh r k ev)\<lparr>out := [Loop Welcome, View (Room_header ''Grand Atrium''),
                   View (Items_here [''Restraint Cuffs'']), View (Exits [''n''])]\<rparr>"
      and k: "k \<in> set (keys the_npcs)" "set (keys ev) = set (keys the_npcs)" by auto
  have "core g = core (fresh r k ev)" by (simp add: g core_def)
  then show ?thesis using sound_fresh [OF k] by (rule sound_coreI)
qed

lemma sound_final_load:
  assumes "sound g" "file_ok f"
  shows "sound (final (load g f))"
proof (cases f)
  case None
  have "core (say (Loop No_save_found) g) = core g" by (rule core_say)
  then have "sound (say (Loop No_save_found) g)" using assms(1) by (rule sound_coreI)
  with None show ?thesis by (simp add: load_def final_def)
next
  case (Some d)
  with assms(2) obtain gs where gs: "sound gs" "d = dump gs" by (auto simp: file_ok_def)
  from assms(1) gs(1) have sw: "same_world g" "same_world gs"
    by (simp_all add: sound_def shape_def)
  have "core (final (load g f)) = core gs"
    using sw by (simp add: Some gs(2) load_dump [OF sw] final_def core_def say_def same_world_def)
  then show ?thesis using gs(1) by (rule sound_coreI)
qed

lemma sound_quiet: "core (final r) = core g \<Longrightarrow> sound g \<Longrightarrow> sound (final r)"
  by (rule sound_coreI)

lemma good_after: "sound (final r) \<Longrightarrow> file_ok f \<Longrightarrow> good (snd (after r f))"
proof -
  assume s: "sound (final r)" and f: "file_ok f"
  have "core (remind g) = core g" for g
    by (simp add: remind_def core_say)
  then have "sound g \<Longrightarrow> sound (remind g)" for g
    by (rule sound_coreI)
  with s f show ?thesis
    by (cases r) (simp_all add: after_def good_def final_def)
qed

lemma sound_say: "sound g \<Longrightarrow> sound (say m g)"
  using core_say by (rule sound_coreI)

lemma good_turn: "good (g, f) \<Longrightarrow> good (snd (turn i (g, f)))"
proof -
  assume "good (g, f)"
  then have s: "sound g" and f: "file_ok f" by (simp_all add: good_def)
  have f': "file_ok (Some (dump g))" using s by (auto simp: file_ok_def)
  note finals = sound_quiet [OF quiet_look s] sound_quiet [OF quiet_show_map s]
    sound_quiet [OF quiet_show_time s] sound_quiet [OF quiet_inv_show s]
    sound_quiet [OF quiet_inspect s] sound_quiet [OF quiet_accuse s]
    sound_quiet [OF quiet_use_console s]
    sound_final_take [OF s] sound_final_drop [OF s] sound_final_talk [OF s]
    sound_final_arrest [OF s] sound_final_move [OF s] sound_final_load [OF s f]
  have ok: "good (snd (after (Ok (say m g)) f))" for m
    by (rule good_after) (simp_all add: final_def sound_say s f)
  have ok2: "good (snd (after (Ok (say m2 (say m g))) f))" for m m2
    by (rule good_after) (simp_all add: final_def sound_say s f)
  have sv: "good (snd (after (Ok (say m g)) (Some (dump g))))" for m
    by (rule good_after) (simp_all add: final_def sound_say s f')
  have gs: "good (say m g, f)" for m
    by (simp add: good_def sound_say s f)
  show ?thesis
  proof (cases i)
    case EOF
    then show ?thesis by (simp add: turn_def good_def sound_say s f)
  next
    case (Line parts)
    show ?thesis
    proof (cases parts)
      case Nil
      with Line show ?thesis by (simp add: turn_def good_def s f)
    next
      case (Cons c args)
      show ?thesis
        unfolding Line Cons turn_def Let_def save_def
        by (simp add: good_after finals f ok ok2 sv gs split: list.split)
    qed
  qed
qed

lemma reachable_good: "reachable w \<Longrightarrow> good w"
proof (induction rule: reachable.induct)
  case (first_run seed g)
  then show ?case by (simp add: good_def sound_start file_ok_def)
next
  case (next_run g0 fl seed g)
  then show ?case by (simp add: good_def sound_start)
next
  case (next_turn w i w')
  from good_turn [of "fst w" "snd w" i] next_turn show ?case by simp
qed

lemma reachable_sound: "reachable (g, f) \<Longrightarrow> sound g"
  by (drule reachable_good) (simp add: good_def)

definition names_item :: "Game \<Rightarrow> string list \<Rightarrow> string \<Rightarrow> bool" where
  "names_item g args i =
     (case map_of (items g) i of
        None \<Rightarrow> False
      | Some it \<Rightarrow> lower (item_name it) = lower (join_sp args) \<or> lower i = lower (join_sp args))"

definition names_npc :: "Game \<Rightarrow> string list \<Rightarrow> string \<Rightarrow> bool" where
  "names_npc g args nid =
     (case map_of (npcs g) nid of
        None \<Rightarrow> False
      | Some n \<Rightarrow> lower (npc_name n) = lower (join_sp args) \<or> lower nid = lower (join_sp args))"

definition resolve :: "Game \<Rightarrow> string list \<Rightarrow> string list \<Rightarrow> string option" where
  "resolve g args pool = find (names_item g args) pool"

definition resolve_npc :: "Game \<Rightarrow> string list \<Rightarrow> string list \<Rightarrow> string option" where
  "resolve_npc g args pool = find (names_npc g args) pool"

lemma labels_distinct:
  "distinct (map fst the_items @ map (\<lambda>kv. lower (item_name (snd kv))) the_items @
             map fst the_npcs @ map (\<lambda>kv. lower (npc_name (snd kv))) the_npcs)"
  by code_simp

lemma ids_lower:
  "list_all (\<lambda>i. lower i = i \<and> i \<noteq> []) (map fst the_items)"
  "list_all (\<lambda>i. lower i = i \<and> i \<noteq> []) (map fst the_npcs)"
  by code_simp+


lemma item_match_unique:
  assumes "map_of the_items i = Some it" "map_of the_items j = Some jt"
    "lower (item_name it) = nm \<or> i = nm" "lower (item_name jt) = nm \<or> j = nm"
  shows "i = j"
proof -
  let ?f = "\<lambda>kv. lower (item_name (snd kv))"
  from assms(1,2) have m: "(i, it) \<in> set the_items" "(j, jt) \<in> set the_items"
    by (auto dest: map_of_SomeD)
  from labels_distinct have d: "distinct (map ?f the_items)"
    and x: "set (map fst the_items) \<inter> set (map ?f the_items) = {}"
    by auto
  from d have inj: "inj_on ?f (set the_items)" by (simp add: distinct_map)
  from m have a: "i \<in> set (map fst the_items)" "j \<in> set (map fst the_items)"
    "?f (i, it) \<in> set (map ?f the_items)" "?f (j, jt) \<in> set (map ?f the_items)"
    by force+
  from assms(3,4) show ?thesis
  proof (elim disjE)
    assume "lower (item_name it) = nm" "lower (item_name jt) = nm"
    then have "?f (i, it) = ?f (j, jt)" by simp
    with inj m have "(i, it) = (j, jt)" by (meson inj_onD)
    then show ?thesis by simp
  next
    assume "lower (item_name it) = nm" "j = nm"
    with a x show ?thesis by auto
  next
    assume "i = nm" "lower (item_name jt) = nm"
    with a x show ?thesis by auto
  next
    assume "i = nm" "j = nm"
    then show ?thesis by simp
  qed
qed

lemma npc_match_unique:
  assumes "map_of the_npcs i = Some it" "map_of the_npcs j = Some jt"
    "lower (npc_name it) = nm \<or> i = nm" "lower (npc_name jt) = nm \<or> j = nm"
  shows "i = j"
proof -
  let ?f = "\<lambda>kv. lower (npc_name (snd kv))"
  from assms(1,2) have m: "(i, it) \<in> set the_npcs" "(j, jt) \<in> set the_npcs"
    by (auto dest: map_of_SomeD)
  from labels_distinct have d: "distinct (map ?f the_npcs)"
    and x: "set (map fst the_npcs) \<inter> set (map ?f the_npcs) = {}"
    by auto
  from d have inj: "inj_on ?f (set the_npcs)" by (simp add: distinct_map)
  from m have a: "i \<in> set (map fst the_npcs)" "j \<in> set (map fst the_npcs)"
    "?f (i, it) \<in> set (map ?f the_npcs)" "?f (j, jt) \<in> set (map ?f the_npcs)"
    by force+
  from assms(3,4) show ?thesis
  proof (elim disjE)
    assume "lower (npc_name it) = nm" "lower (npc_name jt) = nm"
    then have "?f (i, it) = ?f (j, jt)" by simp
    with inj m have "(i, it) = (j, jt)" by (meson inj_onD)
    then show ?thesis by simp
  next
    assume "lower (npc_name it) = nm" "j = nm"
    with a x show ?thesis by auto
  next
    assume "i = nm" "lower (npc_name jt) = nm"
    with a x show ?thesis by auto
  next
    assume "i = nm" "j = nm"
    then show ?thesis by simp
  qed
qed

lemma labels_apart:
  "list_all (\<lambda>a. a \<notin> set (map fst the_npcs @ map (\<lambda>kv. lower (npc_name (snd kv))) the_npcs))
     (map fst the_items @ map (\<lambda>kv. lower (item_name (snd kv))) the_items)"
  by code_simp

lemma item_npc_apart:
  assumes "map_of the_items i = Some it" "map_of the_npcs j = Some n"
    "lower (item_name it) = nm \<or> i = nm" "lower (npc_name n) = nm \<or> j = nm"
  shows False
proof -
  from assms(1,2) have m: "(i, it) \<in> set the_items" "(j, n) \<in> set the_npcs"
    by (auto dest: map_of_SomeD)
  from m(1) have "i \<in> set (map fst the_items @ map (\<lambda>kv. lower (item_name (snd kv))) the_items)"
    "lower (item_name it) \<in> set (map fst the_items @ map (\<lambda>kv. lower (item_name (snd kv))) the_items)"
    by force+
  with assms(3) have 1: "nm \<in> set (map fst the_items @ map (\<lambda>kv. lower (item_name (snd kv))) the_items)"
    by blast
  from m(2) have "j \<in> set (map fst the_npcs @ map (\<lambda>kv. lower (npc_name (snd kv))) the_npcs)"
    "lower (npc_name n) \<in> set (map fst the_npcs @ map (\<lambda>kv. lower (npc_name (snd kv))) the_npcs)"
    by force+
  with assms(4) have 2: "nm \<in> set (map fst the_npcs @ map (\<lambda>kv. lower (npc_name (snd kv))) the_npcs)"
    by blast
  from labels_apart 1 have "nm \<notin> set (map fst the_npcs @ map (\<lambda>kv. lower (npc_name (snd kv))) the_npcs)"
    unfolding list_all_iff by blast
  with 2 show False by contradiction
qed

lemma item_id_lower: "map_of the_items i = Some it \<Longrightarrow> lower i = i \<and> i \<noteq> []"
  using ids_lower(1) by (auto simp: list_all_iff dest!: map_of_SomeD) 

lemma npc_id_lower: "map_of the_npcs i = Some n \<Longrightarrow> lower i = i \<and> i \<noteq> []"
  using ids_lower(2) by (auto simp: list_all_iff dest!: map_of_SomeD) 

lemma world_npc:
  assumes "same_world g" "map_of (npcs g) nid = Some n"
  shows "\<exists>n0. map_of the_npcs nid = Some n0 \<and> npc_name n0 = npc_name n"
proof -
  have "map_of (map (\<lambda>(k, n). (k, npc_static n)) d) k = map_option npc_static (map_of d k)"
    for d :: "NPC dict" and k
    by (induction d) auto
  with assms(1) have "map_option npc_static (map_of (npcs g) nid) =
      map_option npc_static (map_of the_npcs nid)"
    by (metis same_world_def)
  with assms(2) obtain n0 where n0: "map_of the_npcs nid = Some n0" "npc_static n0 = npc_static n"
    by (cases "map_of the_npcs nid") auto
  from n0(2) have "npc_name n0 = npc_name n"
    by (cases n0, cases n) (simp add: npc_static_def)
  with n0(1) show ?thesis by blast
qed

lemma find_item_resolve:
  "items g = the_items \<Longrightarrow> set pool \<subseteq> set (keys the_items) \<Longrightarrow>
     find_item (lower (join_sp args)) pool g = Ok (resolve g args pool)"
proof (induction pool)
  case Nil
  then show ?case by (simp add: resolve_def)
next
  case (Cons i pool)
  from Cons.prems(2) have "i \<in> fst ` set the_items" by (simp add: keys_def)
  then obtain it where it: "map_of the_items i = Some it"
    by (cases "map_of the_items i") (auto simp: map_of_eq_None_iff)
  from item_id_lower [OF it] have "lower i = i" by simp
  with it Cons show ?case
    by (simp add: resolve_def names_item_def and_then_def lookup_def)
qed

lemma find_npc_resolve:
  "same_world g \<Longrightarrow> set pool \<subseteq> set (keys the_npcs) \<Longrightarrow>
     find_npc (lower (join_sp args)) pool g = Ok (resolve_npc g args pool)"
proof (induction pool)
  case Nil
  then show ?case by (simp add: resolve_npc_def)
next
  case (Cons i pool)
  from world_keys(2) [OF Cons.prems(1)] Cons.prems(2) have "i \<in> fst ` set (npcs g)"
    by (metis image_set keys_def list.set_intros(1) subsetD)
  then obtain n where n: "map_of (npcs g) i = Some n"
    by (cases "map_of (npcs g) i") (auto simp: map_of_eq_None_iff)
  from world_npc [OF Cons.prems(1) n] obtain n0 where "map_of the_npcs i = Some n0" by blast
  from npc_id_lower [OF this] have "lower i = i" by simp
  with n Cons show ?case
    by (simp add: resolve_npc_def names_npc_def and_then_def lookup_def)
qed

lemma reachable_play:
  "reachable w \<Longrightarrow> fst (play inputs w) = Prompt \<Longrightarrow> reachable (snd (play inputs w))"
proof (induction inputs arbitrary: w)
  case Nil
  then show ?case by simp
next
  case (Cons i rest)
  obtain oc w' where t: "turn i w = (oc, w')" by (cases "turn i w")
  with Cons.prems(2) have oc: "oc = Prompt" by (cases oc) simp_all
  with t Cons.prems(1) have "reachable w'" by (auto intro: reachable.next_turn)
  from Cons.IH [OF this] Cons.prems(2) t oc show ?case by simp
qed

lemmas play_eval = tables run_defs lower_chr_def char_of_def bit_Suc_0_iff

definition restored :: "Game \<Rightarrow> Game \<Rightarrow> bool" where
  "restored g g' \<longleftrightarrow>
     time g' = time g \<and> player_room g' = player_room g \<and> inv_list g' = inv_list g \<and>
     rooms g' = rooms g \<and> npcs g' = npcs g \<and> killer_id g' = killer_id g \<and>
     killer_evidence g' = killer_evidence g"

lemma turn_save: "turn (Line [''save'']) (g, f) = (Prompt, remind (say (Loop Saved) g), Some (dump g))"
  by (simp add: turn_def save_def after_def lower_def lower_chr_def)

lemma turn_load_word: "turn (Line [''load'']) (g, f) = after (load g f) f"
  by (simp add: turn_def lower_def lower_chr_def)

lemma same_world_out: "same_world (g\<lparr>out := x\<rparr>) = same_world g"
  by (simp add: same_world_def)

text \<open>
  Claim C2. In every reachable state, \<^verbatim>\<open>save\<close> followed at once by \<^verbatim>\<open>load\<close> returns,
  and the game it returns agrees with the game before the save on the timer, the player
  room, the inventory, the whole room table (so every room's item and NPC lists), the
  whole NPC table (so every NPC's room, arrested and cooperative fields), the culprit
  and the evidence mapping. The same holds for the two commands typed at the prompt.
\<close>

theorem save_load_roundtrip:
  "reachable (g, f) \<Longrightarrow>
     (\<exists>g2. load (fst (save g f)) (snd (save g f)) = Ok g2 \<and> restored g g2) \<and>
     (\<exists>g3. play [Line [''save''], Line [''load'']] (g, f) = (Prompt, g3, Some (dump g)) \<and>
           restored g g3)"
proof -
  assume r: "reachable (g, f)"
  then have sw: "same_world g" by (auto dest!: reachable_sound simp: sound_def shape_def)
  have l: "load (g\<lparr>out := x\<rparr>) (Some (dump g)) =
      Ok (say (Loop Loaded)
            (g\<lparr>out := x, time := time g, player_room := player_room g, inv_list := inv_list g,
               rooms := rooms g, npcs := npcs g, killer_id := killer_id g,
               killer_evidence := killer_evidence g\<rparr>))" for x
    using load_dump [of "g\<lparr>out := x\<rparr>" g] sw by (simp add: same_world_out)
  have 1: "\<exists>g2. load (fst (save g f)) (snd (save g f)) = Ok g2 \<and> restored g g2"
    by (simp add: save_def say_def l restored_def)
  have "remind (say (Loop Saved) g) = g\<lparr>out := out (remind (say (Loop Saved) g))\<rparr>"
    by (simp add: remind_def say_def)
  then obtain x where x: "remind (say (Loop Saved) g) = g\<lparr>out := x\<rparr>" ..
  have 2: "\<exists>g3. play [Line [''save''], Line [''load'']] (g, f) = (Prompt, g3, Some (dump g)) \<and>
           restored g g3"
    by (simp add: turn_save turn_load_word x l after_def remind_def say_def restored_def)
  from 1 2 show ?thesis ..
qed

theorem save_load_roundtrip_witness:
  "reachable (G0, None) \<and>
   load (fst (save G0 None)) (snd (save G0 None)) =
     Ok (G0\<lparr>out := out G0 @ [Loop Saved, Loop Loaded]\<rparr>) \<and>
   restored G0 (G0\<lparr>out := out G0 @ [Loop Saved, Loop Loaded]\<rparr>)"
proof -
  from save_load_roundtrip [OF reachable_G0] obtain g2
    where g2: "load (fst (save G0 None)) (snd (save G0 None)) = Ok g2" "restored G0 g2"
    by blast
  have "load (fst (save G0 None)) (snd (save G0 None)) =
     Ok (G0\<lparr>out := out G0 @ [Loop Saved, Loop Loaded]\<rparr>)"
    by (simp add: play_eval cong: run_congs)
  with g2 reachable_G0 show ?thesis by simp
qed

lemma sound_lookups:
  assumes "sound g"
  shows "\<exists>k. map_of (npcs g) (killer_id g) = Some k"
    and "\<exists>b. map_of (rooms g) ''brig'' = Some b"
    and "brigrm g = ''brig''" and "cmdrm g = ''command''"
proof -
  from assms have sw: "same_world g" and k: "killer_id g \<in> set (keys the_npcs)"
    by (simp_all add: sound_def shape_def)
  from world_keys(2) [OF sw] k have "killer_id g \<in> fst ` set (npcs g)"
    by (metis image_set keys_def)
  then show "\<exists>k. map_of (npcs g) (killer_id g) = Some k"
    by (cases "map_of (npcs g) (killer_id g)") (auto simp: map_of_eq_None_iff)
  have "''brig'' \<in> set (map fst the_rooms)" by (simp add: the_rooms_def)
  with world_keys(1) [OF sw] have "''brig'' \<in> fst ` set (rooms g)"
    by (metis image_set)
  then show "\<exists>b. map_of (rooms g) ''brig'' = Some b"
    by (cases "map_of (rooms g) ''brig''") (auto simp: map_of_eq_None_iff)
  from sw show "brigrm g = ''brig''" "cmdrm g = ''command''"
    by (simp_all add: same_world_def)
qed

text \<open>
  Claim C1, as amended. In every reachable state with the player in the command room:
  if the culprit is arrested, the codes token is in the detention room and
  \<^verbatim>\<open>use_console\<close> prints the four victory lines and exits in a win; if the culprit is
  not arrested (whoever else is), \<^verbatim>\<open>use_console\<close> does not win, prints the rejection
  and spends one minute, so the game goes on when more than one minute was left and
  ends in a loss when that minute was the last.
\<close>

theorem console_verdict:
  "reachable (g, f) \<Longrightarrow> player_room g = cmdrm g \<Longrightarrow>
     (is_arrested g (killer_id g) \<longrightarrow>
        ''codes_token'' \<in> set (items_in g (brigrm g)) \<and> won (use_console g) \<and>
        (\<exists>k. map_of (npcs g) (killer_id g) = Some k \<and>
           out (final (use_console g)) =
             out g @ [Console Splice_codes, Console Trajectory_restored,
                      Console (Killer_was (npc_name k)), Console You_win])) \<and>
     (\<not> is_arrested g (killer_id g) \<longrightarrow>
        \<not> won (use_console g) \<and>
        (\<exists>rest. out (final (use_console g)) = out g @ Console Seed_required # rest) \<and>
        time (final (use_console g)) = time g - 1 \<and>
        (1 < time g \<longrightarrow> (\<exists>g'. use_console g = Ok g')) \<and>
        (time g = 1 \<longrightarrow> lost (use_console g)))"
proof -
  assume r: "reachable (g, f)" and p: "player_room g = cmdrm g"
  from r have s: "sound g" by (rule reachable_sound)
  from reachable_timed [OF r] have t: "0 < time g" by (simp add: timed_def)
  from sound_lookups [OF s] obtain k b where k: "map_of (npcs g) (killer_id g) = Some k"
    and b: "map_of (rooms g) ''brig'' = Some b" and br: "brigrm g = ''brig''"
    by blast
  from s b have tr: "(''codes_token'' \<in> set (room_items b)) = is_arrested g (killer_id g)"
    by (simp add: sound_def token_rule_def items_in_def)
  have ii: "items_in g (brigrm g) = room_items b"
    by (simp add: items_in_def br b)
  show ?thesis
  proof (cases "is_arrested g (killer_id g)")
    case True
    with tr have "use_console g =
        Raise SystemExit
          (say (Console You_win) (say (Console (Killer_was (npc_name k)))
            (say (Console Trajectory_restored) (say (Console Splice_codes) g))))"
      by (simp add: use_console_def p k b br and_then_def lookup_def)
    with True tr ii k show ?thesis
      by (simp add: won_def say_def final_def)
  next
    case False
    define g2 where "g2 = (if list_ex arrested (vals (npcs g))
        then say (Console Wrong_person_hint) (say (Console Someone_in_brig) (say (Console Seed_required) g))
        else say (Console Seed_required) g)"
    from False tr have u: "use_console g = spend 1 g2"
      by (simp add: use_console_def p k b br and_then_def lookup_def g2_def Let_def say_def)
    have o: "\<exists>rest. out g2 = out g @ Console Seed_required # rest" and t2: "time g2 = time g"
      by (simp_all add: g2_def say_def)
    from o obtain rest where rest: "out g2 = out g @ Console Seed_required # rest" ..
    show ?thesis
    proof (cases "time g = 1")
      case True
      with u t2 rest False show ?thesis
        by (simp add: spend_def Let_def won_def lost_def final_def say_def)
    next
      case nl: False
      with t have "1 < time g" by simp
      with u t2 rest False show ?thesis
        by (simp add: spend_def Let_def won_def lost_def final_def say_def)
    qed
  qed
qed

definition script_won :: "input list" where
  "script_won =
     [Line [''take'', ''cuffs''], Line [''go'', ''n''], Line [''go'', ''w''],
      Line [''arrest'', ''voss''], Line [''go'', ''e''], Line [''go'', ''e'']]"

definition W_won :: world where
  "W_won = snd (play script_won (G0, None))"

definition script_last :: "input list" where
  "script_last =
     [Line [''go'', ''n''], Line [''go'', ''e''],
      Line [''accuse'', ''voss''], Line [''accuse'', ''voss''], Line [''accuse'', ''voss''],
      Line [''accuse'', ''voss''], Line [''accuse'', ''voss''], Line [''accuse'', ''voss''],
      Line [''accuse'', ''voss''], Line [''accuse'', ''voss''], Line [''accuse'', ''voss''],
      Line [''accuse'', ''voss''], Line [''accuse'', ''voss''], Line [''accuse'', ''voss''],
      Line [''accuse'', ''voss''], Line [''accuse'', ''voss''], Line [''accuse'', ''voss''],
      Line [''accuse'', ''voss''], Line [''accuse'', ''voss''], Line [''accuse'', ''voss''],
      Line [''use'', ''console'']]"

definition W_last :: world where
  "W_last = snd (play script_last (G0, None))"

lemma W_won_run:
  "case play script_won (G0, None) of (oc, g, f) \<Rightarrow>
     oc = Prompt \<and> f = None \<and> player_room g = ''command'' \<and> cmdrm g = ''command'' \<and>
     killer_id g = ''voss'' \<and> is_arrested g ''voss'' \<and> time g = 48"
  by (simp add: script_won_def play_eval is_arrested_def cong: run_congs)

lemma W_last_run:
  "case play script_last (G0, None) of (oc, g, f) \<Rightarrow>
     oc = Prompt \<and> f = None \<and> player_room g = ''command'' \<and> cmdrm g = ''command'' \<and>
     killer_id g = ''voss'' \<and> \<not> is_arrested g ''voss'' \<and> \<not> list_ex arrested (vals (npcs g)) \<and>
     time g = 1"
  by (simp add: script_last_def play_eval is_arrested_def cong: run_congs)


lemma W_won_facts:
  "fst (play script_won (G0, None)) = Prompt" "player_room (fst W_won) = ''command''"
  "cmdrm (fst W_won) = ''command''" "killer_id (fst W_won) = ''voss''"
  "is_arrested (fst W_won) ''voss''" "time (fst W_won) = 48" "snd W_won = None"
  using W_won_run by (simp_all add: W_won_def split: prod.splits)

lemma W_last_facts:
  "fst (play script_last (G0, None)) = Prompt" "player_room (fst W_last) = ''command''"
  "cmdrm (fst W_last) = ''command''" "killer_id (fst W_last) = ''voss''"
  "\<not> is_arrested (fst W_last) ''voss''" "\<not> list_ex arrested (vals (npcs (fst W_last)))"
  "time (fst W_last) = 1" "snd W_last = None"
  using W_last_run by (simp_all add: W_last_def split: prod.splits)

lemma reachable_W_won: "reachable (fst W_won, None)"
proof -
  from reachable_play [OF reachable_G0 W_won_facts(1)] have "reachable W_won"
    by (simp add: W_won_def)
  then show ?thesis using W_won_facts(7) by (metis prod.collapse)
qed

lemma reachable_W_last: "reachable (fst W_last, None)"
proof -
  from reachable_play [OF reachable_G0 W_last_facts(1)] have "reachable W_last"
    by (simp add: W_last_def)
  then show ?thesis using W_last_facts(8) by (metis prod.collapse)
qed

theorem console_verdict_witness:
  "reachable (fst W_won, None) \<and> player_room (fst W_won) = cmdrm (fst W_won) \<and>
   is_arrested (fst W_won) (killer_id (fst W_won)) \<and>
   ''codes_token'' \<in> set (items_in (fst W_won) (brigrm (fst W_won))) \<and>
   won (use_console (fst W_won)) \<and>
   reachable (fst W_last, None) \<and> player_room (fst W_last) = cmdrm (fst W_last) \<and>
   \<not> is_arrested (fst W_last) (killer_id (fst W_last)) \<and>
   \<not> won (use_console (fst W_last)) \<and> time (final (use_console (fst W_last))) = 0 \<and>
   lost (use_console (fst W_last))"
  using console_verdict [OF reachable_W_won] console_verdict [OF reachable_W_last]
  by (simp add: W_won_facts W_last_facts reachable_W_won reachable_W_last)

text \<open>
  The claim as stated fails in the last minute: two moves, eighteen accusations and one
  rejected console use leave a reachable state in the command room, nobody arrested,
  one minute left; using the console there prints the rejection and then ends the game
  in a loss instead of letting it continue.
\<close>

theorem console_last_minute_counterexample:
  "reachable (fst W_last, None) \<and> player_room (fst W_last) = cmdrm (fst W_last) \<and>
   \<not> list_ex arrested (vals (npcs (fst W_last))) \<and> time (fst W_last) = 1 \<and>
   lost (use_console (fst W_last)) \<and> \<not> (\<exists>g'. use_console (fst W_last) = Ok g')"
proof -
  have "lost (use_console (fst W_last))"
    using console_verdict [OF reachable_W_last] by (simp add: W_last_facts)
  moreover from this have "\<not> (\<exists>g'. use_console (fst W_last) = Ok g')"
    by (auto simp: lost_def)
  ultimately show ?thesis
    by (simp add: reachable_W_last W_last_facts)
qed

end
